theory Spec2Isabelle
  imports Complex_Main "HOL-Library.Word"
begin

section \<open>Conventions of the embedding\<close>

text \<open>
  The C++ sources are embedded as follows.
  \<^item> \<open>int\<close> values are HOL integers. Indices, sizes and counters are bounded by a small
    multiple of the number of voxels, so no signed wrap-around is reachable there for
    arrays of fewer than \<open>2^30\<close> entries. The one \<open>int\<close> that is not so bounded is the
    category of getCategory, a \<open>double\<close> cast to \<open>int\<close>: there the range of \<open>int\<close> is
    checked, and a cast outside it (undefined behaviour in C++) is \<open>Inl IntOverflow\<close>.
    Where the source compares an \<open>int\<close> with a \<open>size_t\<close>, the conversion to an unsigned
    64-bit word is written out.
  \<^item> \<open>double\<close> values are the HOL reals they denote. The quotient and the product of
    getCategory, whose result is cast to \<open>int\<close>, are rounded to binary64 (\<open>to_double\<close>);
    elsewhere only exactly representable numbers are used in the concrete evaluations
    and rounding is not modelled.
  \<^item> \<open>std::vector\<close> is a list. \<open>operator[]\<close> outside the vector is undefined
    behaviour in C++; the model returns \<open>Inl OutOfBounds\<close> there.
  \<^item> A \<open>while\<close> loop whose termination depends on the data is a
    \<^theory_text>\<open>partial_function\<close>; not returning is \<open>None\<close>, surfaced as \<open>Inl Diverges\<close>.
  \<^item> Constructing a \<open>std::vector\<close> with a negative element count throws
    \<open>std::length_error\<close>; the model returns \<open>Inl LengthError\<close>.
  \<^item> \<open>throw std::invalid_argument(msg)\<close> in changeQuery is the outcome \<open>Threw msg\<close>,
    returned together with the state of the \<open>MARK\<close> buffer at the throw.
\<close>

datatype error = OutOfBounds | Diverges | LengthError | IntOverflow

definition inb :: "'a list \<Rightarrow> int \<Rightarrow> bool" where
  "inb xs i \<longleftrightarrow> 0 \<le> i \<and> i < int (length xs)"

definition rd :: "'a list \<Rightarrow> int \<Rightarrow> error + 'a" where
  "rd xs i = (if inb xs i then Inr (xs ! nat i) else Inl OutOfBounds)"

definition wr :: "'a list \<Rightarrow> int \<Rightarrow> 'a \<Rightarrow> error + 'a list" where
  "wr xs i v = (if inb xs i then Inr (xs[nat i := v]) else Inl OutOfBounds)"

definition bindE :: "error + 'a \<Rightarrow> ('a \<Rightarrow> error + 'b) \<Rightarrow> error + 'b" where
  "bindE r f = (case r of Inl e \<Rightarrow> Inl e | Inr x \<Rightarrow> f x)"

lemma bindE_cong [fundef_cong]:
  "r = r' \<Longrightarrow> (\<And>x. r' = Inr x \<Longrightarrow> f x = f' x) \<Longrightarrow> bindE r f = bindE r' f'"
  by (auto simp: bindE_def split: sum.splits)

definition new_vector :: "int \<Rightarrow> 'a \<Rightarrow> error + 'a list" where
  "new_vector n x = (if n < 0 then Inl LengthError else Inr (replicate (nat n) x))"

definition run :: "(error + 'a) option \<Rightarrow> error + 'a" where
  "run r = (case r of None \<Rightarrow> Inl Diverges | Some x \<Rightarrow> x)"

text \<open>C++ integer division truncates towards zero.\<close>

definition c_div :: "int \<Rightarrow> int \<Rightarrow> int" where
  "c_div a b = sgn a * sgn b * (\<bar>a\<bar> div \<bar>b\<bar>)"

text \<open>
  A \<open>for\<close> loop over the listed index values (or over the elements of a vector that
  the body does not change), stopping at the first failure.
\<close>

fun for_loop :: "'a list \<Rightarrow> ('a \<Rightarrow> 's \<Rightarrow> error + 's) \<Rightarrow> 's \<Rightarrow> error + 's" where
  "for_loop [] body s = Inr s"
| "for_loop (i # is) body s = bindE (body i s) (for_loop is body)"

section \<open>Hommel engine (hommel\_zero\_based.cpp)\<close>

subsection \<open>findhull\<close>

text \<open>The concavity test of the \<open>do ... while\<close> body, for the current hull and candidate \<open>i\<close>.\<close>

definition notconvex_test :: "real list \<Rightarrow> int \<Rightarrow> int list \<Rightarrow> error + bool" where
  "notconvex_test p i hul =
     (let r = int (length hul) - 1 in
      if r > 0 then
        bindE (rd hul (r - 1)) (\<lambda>h1. bindE (rd hul r) (\<lambda>h0.
        bindE (rd p h0) (\<lambda>ph0. bindE (rd p h1) (\<lambda>ph1. bindE (rd p i) (\<lambda>p_i.
          Inr (of_int (i - h1) * (ph0 - ph1) \<ge> of_int (h0 - h1) * (p_i - ph1)))))))
      else if r = 0 then
        bindE (rd hul 0) (\<lambda>h0. bindE (rd p h0) (\<lambda>ph0. bindE (rd p i) (\<lambda>p_i.
          Inr (of_int i * ph0 \<ge> of_int h0 * p_i))))
      else Inr False)"

function findhull_pop :: "real list \<Rightarrow> int \<Rightarrow> int list \<Rightarrow> error + int list" where
  "findhull_pop p i hul =
     (case notconvex_test p i hul of
        Inl e \<Rightarrow> Inl e
      | Inr notconvex \<Rightarrow>
          if notconvex then findhull_pop p i (take (nat (int (length hul) - 1)) hul)
          else Inr hul)"
  by pat_completeness auto
termination
proof (relation "measure (\<lambda>(p, i, hul). length hul)")
  show "wf (measure (\<lambda>(p, i, hul). length hul))" by simp
next
  fix p :: "real list" and i :: int and hul :: "int list" and x2 :: bool
  assume "notconvex_test p i hul = Inr x2" and "x2"
  then have "hul \<noteq> []"
    by (auto simp: notconvex_test_def Let_def)
  then show "((p, i, take (nat (int (length hul) - 1)) hul), p, i, hul)
      \<in> measure (\<lambda>(p, i, hul). length hul)"
    by (cases hul) auto
qed

definition findhull_step :: "int \<Rightarrow> real list \<Rightarrow> int \<Rightarrow> int list \<Rightarrow> error + int list" where
  "findhull_step m p i hul =
     bindE (if i = m - 1 then Inr True
            else bindE (rd p i) (\<lambda>p_i. bindE (rd p 0) (\<lambda>p0. bindE (rd p (m - 1)) (\<lambda>pm.
                   Inr (of_int (m - 1) * (p_i - p0) < of_int i * (pm - p0))))))
       (\<lambda>admit. if admit then bindE (findhull_pop p i hul) (\<lambda>hul'. Inr (hul' @ [i]))
                 else Inr hul)"

definition findhull :: "int \<Rightarrow> real list \<Rightarrow> error + int list" where
  "findhull m p = for_loop [1..m - 1] (findhull_step m p) [0]"

subsection \<open>findHalpha\<close>

function findHalpha_loop :: "real list \<Rightarrow> real \<Rightarrow> int \<Rightarrow> int \<Rightarrow> error + int" where
  "findHalpha_loop jumpalpha alpha lower upper =
     (if lower + 1 < upper then
        (let mid = c_div (lower + upper) 2 in
         case rd jumpalpha mid of
           Inl e \<Rightarrow> Inl e
         | Inr x \<Rightarrow> if x > alpha then findHalpha_loop jumpalpha alpha mid upper
                    else findHalpha_loop jumpalpha alpha lower mid)
      else Inr lower)"
  by pat_completeness auto
termination
proof (relation "measure (\<lambda>(jumpalpha, alpha, lower, upper). nat (upper - lower))")
  show "wf (measure (\<lambda>(jumpalpha, alpha, lower, upper). nat (upper - lower)))" by simp
next
  fix jumpalpha :: "real list" and alpha :: real and lower upper mid :: int and x :: real
  assume "lower + 1 < upper" and "mid = c_div (lower + upper) 2"
  then have "lower < mid \<and> mid < upper"
    by (cases "0 \<le> lower + upper") (auto simp: c_div_def sgn_if)
  then show "((jumpalpha, alpha, mid, upper), jumpalpha, alpha, lower, upper)
      \<in> measure (\<lambda>(jumpalpha, alpha, lower, upper). nat (upper - lower))"
    by simp
next
  fix jumpalpha :: "real list" and alpha :: real and lower upper mid :: int and x :: real
  assume "lower + 1 < upper" and "mid = c_div (lower + upper) 2"
  then have "lower < mid \<and> mid < upper"
    by (cases "0 \<le> lower + upper") (auto simp: c_div_def sgn_if)
  then show "((jumpalpha, alpha, lower, mid), jumpalpha, alpha, lower, upper)
      \<in> measure (\<lambda>(jumpalpha, alpha, lower, upper). nat (upper - lower))"
    by simp
qed

definition findHalpha :: "real list \<Rightarrow> real \<Rightarrow> int \<Rightarrow> error + int" where
  "findHalpha jumpalpha alpha m = findHalpha_loop jumpalpha alpha 0 m"


subsection \<open>findHalpha of analyses/hommel\_backup.cpp (the one-based original)\<close>

function findHalpha_backup_loop :: "real list \<Rightarrow> real \<Rightarrow> int \<Rightarrow> int \<Rightarrow> error + int" where
  "findHalpha_backup_loop jumpalpha alpha lower upper =
     (if lower + 1 < upper then
        (let mid = c_div (lower + upper + 1) 2 in
         case rd jumpalpha (mid - 1) of
           Inl e \<Rightarrow> Inl e
         | Inr x \<Rightarrow> if x > alpha then findHalpha_backup_loop jumpalpha alpha mid upper
                    else findHalpha_backup_loop jumpalpha alpha lower mid)
      else Inr lower)"
  by pat_completeness auto
termination
proof (relation "measure (\<lambda>(jumpalpha, alpha, lower, upper). nat (upper - lower))")
  show "wf (measure (\<lambda>(jumpalpha, alpha, lower, upper). nat (upper - lower)))" by simp
next
  fix jumpalpha :: "real list" and alpha :: real and lower upper mid :: int and x :: real
  assume "lower + 1 < upper" and "mid = c_div (lower + upper + 1) 2"
    and "rd jumpalpha (mid - 1) = Inr x"
  then have "lower < mid \<and> mid < upper"
    by (cases "0 \<le> lower + upper + 1")
       (auto simp: c_div_def sgn_if rd_def inb_def split: if_splits)
  then show "((jumpalpha, alpha, mid, upper), jumpalpha, alpha, lower, upper)
      \<in> measure (\<lambda>(jumpalpha, alpha, lower, upper). nat (upper - lower))"
    by simp
next
  fix jumpalpha :: "real list" and alpha :: real and lower upper mid :: int and x :: real
  assume "lower + 1 < upper" and "mid = c_div (lower + upper + 1) 2"
    and "rd jumpalpha (mid - 1) = Inr x"
  then have "lower < mid \<and> mid < upper"
    by (cases "0 \<le> lower + upper + 1")
       (auto simp: c_div_def sgn_if rd_def inb_def split: if_splits)
  then show "((jumpalpha, alpha, lower, mid), jumpalpha, alpha, lower, upper)
      \<in> measure (\<lambda>(jumpalpha, alpha, lower, upper). nat (upper - lower))"
    by simp
qed

definition findHalpha_backup :: "real list \<Rightarrow> real \<Rightarrow> int \<Rightarrow> error + int" where
  "findHalpha_backup jumpalpha alpha m = findHalpha_backup_loop jumpalpha alpha 0 (m + 1)"



subsection \<open>Disjoint sets with path halving: Find and Union\<close>

partial_function (option) Find_loop :: "int \<Rightarrow> int list \<Rightarrow> (error + int \<times> int list) option" where
  "Find_loop x parent =
     (case rd parent x of
        Inl e \<Rightarrow> Some (Inl e)
      | Inr px \<Rightarrow>
          if px = x then Some (Inr (x, parent))
          else (case rd parent px of
                  Inl e \<Rightarrow> Some (Inl e)
                | Inr ppx \<Rightarrow> Find_loop ppx (parent[nat x := ppx])))"

declare Find_loop.simps [code]

text \<open>\<open>Find\<close> returns the representative and the parent array after path halving.\<close>

definition Find :: "int \<Rightarrow> int list \<Rightarrow> error + int \<times> int list" where
  "Find x parent = run (Find_loop x parent)"

text \<open>The state of the rank-based structure is \<open>(parent, lowest, rank)\<close>.\<close>

definition Union :: "int \<Rightarrow> int \<Rightarrow> int list \<times> int list \<times> int list \<Rightarrow>
    error + int list \<times> int list \<times> int list" where
  "Union x y st =
     (case st of (parent, lowest, rank) \<Rightarrow>
      bindE (Find x parent) (\<lambda>(xRoot, parent1).
      bindE (Find y parent1) (\<lambda>(yRoot, parent2).
      if xRoot = yRoot then Inr (parent2, lowest, rank)
      else
        bindE (rd rank xRoot) (\<lambda>rx. bindE (rd rank yRoot) (\<lambda>ry.
        bindE (rd lowest xRoot) (\<lambda>lx. bindE (rd lowest yRoot) (\<lambda>ly.
        if rx < ry then
          bindE (wr parent2 xRoot yRoot) (\<lambda>parent3.
          bindE (wr lowest yRoot (min lx ly)) (\<lambda>lowest3. Inr (parent3, lowest3, rank)))
        else if rx > ry then
          bindE (wr parent2 yRoot xRoot) (\<lambda>parent3.
          bindE (wr lowest xRoot (min lx ly)) (\<lambda>lowest3. Inr (parent3, lowest3, rank)))
        else
          bindE (wr parent2 yRoot xRoot) (\<lambda>parent3.
          bindE (wr rank xRoot (rx + 1)) (\<lambda>rank3.
          bindE (wr lowest xRoot (min lx ly)) (\<lambda>lowest3. Inr (parent3, lowest3, rank3)))))))))))"

subsection \<open>getCategory, findConcentration, findDiscoveries\<close>

text \<open>
  Rounding to binary64, to the nearest value and to the even one on a tie. \<open>ilog2 x\<close> is
  the exponent of \<open>x > 0\<close>, that is \<open>2 ^ ilog2 x \<le> x < 2 ^ (ilog2 x + 1)\<close>; the spacing of
  the doubles around \<open>x\<close> is \<open>2 ^ (ilog2 x - 52)\<close>, and \<open>2 ^ (- 1074)\<close> below the smallest
  normal number. \<open>to_double x\<close> is \<open>None\<close> when \<open>x\<close> rounds to an infinity.
\<close>

function ilog2 :: "real \<Rightarrow> int" where
  "ilog2 x = (if x \<le> 0 then 0
              else if 2 \<le> x then ilog2 (x / 2) + 1
              else if x < 1 then ilog2 (2 * x) - 1
              else 0)"
  by pat_completeness auto
termination
proof (relation "measure (\<lambda>x. nat (if 1 \<le> x then \<lfloor>log 2 x\<rfloor> else \<lceil>- log 2 x\<rceil> + 1))")
  show "wf (measure (\<lambda>x. nat (if 1 \<le> x then \<lfloor>log 2 x\<rfloor> else \<lceil>- log 2 x\<rceil> + 1)))" by simp
next
  fix x :: real assume "\<not> x \<le> 0" and x: "2 \<le> x"
  have l: "log 2 (x / 2) = log 2 x - 1" using x by (simp add: log_divide)
  have "1 \<le> log 2 x" using x by simp
  then have "1 \<le> \<lfloor>log 2 x\<rfloor>" by linarith
  moreover have "\<lfloor>log 2 x - 1\<rfloor> = \<lfloor>log 2 x\<rfloor> - 1" by linarith
  ultimately show "(x / 2, x) \<in> measure (\<lambda>x. nat (if 1 \<le> x then \<lfloor>log 2 x\<rfloor> else \<lceil>- log 2 x\<rceil> + 1))"
    using x l by simp
next
  fix x :: real assume x0: "\<not> x \<le> 0" and "\<not> 2 \<le> x" and x1: "x < 1"
  have l: "log 2 (2 * x) = 1 + log 2 x" using x0 by (simp add: log_mult)
  have neg: "log 2 x < 0" using x0 x1 by simp
  then have c: "1 \<le> \<lceil>- log 2 x\<rceil>" by linarith
  show "(2 * x, x) \<in> measure (\<lambda>x. nat (if 1 \<le> x then \<lfloor>log 2 x\<rfloor> else \<lceil>- log 2 x\<rceil> + 1))"
  proof (cases "1 \<le> 2 * x")
    case True
    have "\<lfloor>1 + log 2 x\<rfloor> \<le> 0" using neg by linarith
    with True x1 c l show ?thesis by simp
  next
    case False
    have "\<lceil>- (1 + log 2 x)\<rceil> = \<lceil>- log 2 x\<rceil> - 1" by linarith
    with False x1 c l show ?thesis by simp
  qed
qed

definition pow2 :: "int \<Rightarrow> real" where
  "pow2 e = (if 0 \<le> e then 2 ^ nat e else 1 / 2 ^ nat (- e))"

definition round_even :: "real \<Rightarrow> int" where
  "round_even y = (let f = \<lfloor>y\<rfloor> in
     if y - of_int f < 1 / 2 then f
     else if 1 / 2 < y - of_int f then f + 1
     else if even f then f else f + 1)"

definition to_double :: "real \<Rightarrow> real option" where
  "to_double x =
     (if x = 0 then Some 0
      else let e = ilog2 \<bar>x\<bar>;
               q = pow2 (max e (- 1022) - 52);
               n = round_even (x / q)
           in if 1024 \<le> e \<or> (e = 1023 \<and> \<bar>n\<bar> = 2 ^ 53) then None
              else Some (of_int n * q))"

text \<open>
  \<open>double cat = (simesfactor / alpha) * p; return static_cast<int>(std::ceil(cat)) - 1\<close>.
  An infinite quotient gives an infinite product (\<open>p\<close> is not zero there), and the cast of
  an infinity, or of a value outside the range of \<open>int\<close>, is undefined; so is the
  subtraction at the least \<open>int\<close>.
\<close>

definition getCategory :: "real \<Rightarrow> real \<Rightarrow> real \<Rightarrow> int \<Rightarrow> error + int" where
  "getCategory p simesfactor alpha m =
     (if p = 0 \<or> simesfactor = 0 then Inr 0
      else if alpha = 0 then Inr m
      else (case to_double (simesfactor / alpha) of
              None \<Rightarrow> Inl IntOverflow
            | Some q \<Rightarrow>
                (case to_double (q * p) of
                   None \<Rightarrow> Inl IntOverflow
                 | Some cat \<Rightarrow>
                     if - (2 ^ 31) < \<lceil>cat\<rceil> \<and> \<lceil>cat\<rceil> < 2 ^ 31 then Inr (\<lceil>cat\<rceil> - 1)
                     else Inl IntOverflow)))"

function findConcentration_loop :: "real list \<Rightarrow> real \<Rightarrow> int \<Rightarrow> real \<Rightarrow> int \<Rightarrow> int \<Rightarrow> error + int" where
  "findConcentration_loop p simesfactor h alpha m z =
     (if z < m - 1 then
        (case rd p z of
           Inl e \<Rightarrow> Inl e
         | Inr pz \<Rightarrow>
             if simesfactor * pz > of_int (z - m + h + 2) * alpha
             then findConcentration_loop p simesfactor h alpha m (z + 1)
             else Inr z)
      else Inr z)"
  by pat_completeness auto
termination
  by (relation "measure (\<lambda>(p, simesfactor, h, alpha, m, z). nat (m - 1 - z))") auto

definition findConcentration :: "real list \<Rightarrow> real \<Rightarrow> int \<Rightarrow> real \<Rightarrow> int \<Rightarrow> error + int" where
  "findConcentration p simesfactor h alpha m =
     (let z = m - h - 1 in
      if z \<ge> 0 then findConcentration_loop p simesfactor h alpha m z else Inr z)"

text \<open>
  The backwards scan \<open>for (i = k - 1; i >= 0; i--)\<close> over \<open>cats\<close> with its \<open>break\<close>; the first
  argument is \<open>i + 1\<close>.
\<close>

fun maxcatI_loop :: "nat \<Rightarrow> int list \<Rightarrow> int \<Rightarrow> int \<Rightarrow> error + int" where
  "maxcatI_loop 0 cats maxcat maxcatI = Inr maxcatI"
| "maxcatI_loop (Suc i) cats maxcat maxcatI =
     bindE (rd cats (int i)) (\<lambda>c.
       if c > maxcatI then (if c \<ge> maxcat then Inr c else maxcatI_loop i cats maxcat c)
       else maxcatI_loop i cats maxcat maxcatI)"

text \<open>One iteration of "the algorithm proper"; the state is \<open>(parent, lowest, rank, discoveries)\<close>.\<close>

definition findDiscoveries_step :: "int list \<Rightarrow> int \<Rightarrow> int \<Rightarrow>
    int list \<times> int list \<times> int list \<times> int list \<Rightarrow>
    error + int list \<times> int list \<times> int list \<times> int list" where
  "findDiscoveries_step cats maxcat i st =
     (case st of (parent, lowest, rank, discoveries) \<Rightarrow>
      bindE (rd cats i) (\<lambda>c.
      if c \<le> maxcat then
        bindE (Find c parent) (\<lambda>(r, parent1).
        bindE (rd lowest r) (\<lambda>lowestInPi.
        if lowestInPi = 0 then
          bindE (if i = 0 then Inr 1 else bindE (rd discoveries (i - 1)) (\<lambda>d. Inr (d + 1))) (\<lambda>d.
          bindE (wr discoveries i d) (\<lambda>discoveries'. Inr (parent1, lowest, rank, discoveries')))
        else
          bindE (if i = 0 then Inr 0 else rd discoveries (i - 1)) (\<lambda>d.
          bindE (wr discoveries i d) (\<lambda>discoveries'.
          bindE (Find c parent1) (\<lambda>(r2, parent2).
          bindE (Union (lowestInPi - 1) r2 (parent2, lowest, rank)) (\<lambda>(parent3, lowest3, rank3).
            Inr (parent3, lowest3, rank3, discoveries')))))))
      else
        bindE (if i = 0 then Inr 0 else rd discoveries (i - 1)) (\<lambda>d.
        bindE (wr discoveries i d) (\<lambda>discoveries'. Inr (parent, lowest, rank, discoveries')))))"

definition findDiscoveries :: "int list \<Rightarrow> real list \<Rightarrow> real \<Rightarrow> int \<Rightarrow> real \<Rightarrow> int \<Rightarrow> int \<Rightarrow>
    error + int list" where
  "findDiscoveries idx allp simesfactor h alpha k m =
     bindE (for_loop [0..k - 1]
              (\<lambda>i cats. bindE (rd idx i) (\<lambda>v. bindE (rd allp v) (\<lambda>pv.
                 bindE (getCategory pv simesfactor alpha m) (\<lambda>c. Inr (cats @ [c]))))) [])
       (\<lambda>cats.
     bindE (findConcentration allp simesfactor h alpha m) (\<lambda>z.
     bindE (maxcatI_loop (nat k) cats (min (z - m + h) k) 0) (\<lambda>maxcatI.
     let maxcat = min (min (z - m + h) k) maxcatI in
     bindE (new_vector (maxcat + 1) 0) (\<lambda>rank.
     bindE (new_vector k 0) (\<lambda>discoveries.
     bindE (for_loop [0..k - 1] (findDiscoveries_step cats maxcat)
              ([0..maxcat], [0..maxcat], rank, discoveries))
       (\<lambda>(parent, lowest, rank', discoveries'). Inr discoveries'))))))"

section \<open>Cluster forest (ARICluster.cpp, ARICluster\_zeroBased.cpp)\<close>

subsection \<open>UnionBySize\<close>

text \<open>The state of the size-based structure is \<open>(PARENT, FORESTROOT, SIZE)\<close>.\<close>

definition UnionBySize :: "int \<Rightarrow> int \<Rightarrow> int list \<times> int list \<times> int list \<Rightarrow>
    error + int list \<times> int list \<times> int list" where
  "UnionBySize i j st =
     (case st of (PARENT, FORESTROOT, SIZE) \<Rightarrow>
      bindE (Find i PARENT) (\<lambda>(irep, PARENT1).
      bindE (Find j PARENT1) (\<lambda>(jrep, PARENT2).
      if irep = jrep then Inr (PARENT2, FORESTROOT, SIZE)
      else
        bindE (rd FORESTROOT irep) (\<lambda>iroot. bindE (rd FORESTROOT jrep) (\<lambda>jroot.
        bindE (rd SIZE iroot) (\<lambda>si. bindE (rd SIZE jroot) (\<lambda>sj.
        bindE (if si < sj
               then bindE (wr PARENT2 irep jrep) (\<lambda>PARENT3.
                    bindE (wr FORESTROOT jrep iroot) (\<lambda>FORESTROOT3. Inr (PARENT3, FORESTROOT3)))
               else bindE (wr PARENT2 jrep irep) (\<lambda>PARENT3. Inr (PARENT3, FORESTROOT)))
          (\<lambda>(PARENT3, FORESTROOT3).
        bindE (wr SIZE iroot (si + sj)) (\<lambda>SIZE3. Inr (PARENT3, FORESTROOT3, SIZE3))))))))))"

subsection \<open>findClusters\<close>

text \<open>
  The two source files differ only in the index base of their inputs: ARICluster.cpp
  subtracts 1 from every entry of \<open>ORD\<close> and \<open>ADJ\<close> before using it as an index (\<open>off = 1\<close>),
  ARICluster\_zeroBased.cpp uses the entries as they are (\<open>off = 0\<close>). The state of the inner
  loop over the neighbours is \<open>(PARENT, FORESTROOT, SIZE, CHD)\<close>.
\<close>

definition findClusters_nb :: "int \<Rightarrow> int list \<Rightarrow> int \<Rightarrow> int \<Rightarrow> int \<Rightarrow>
    int list \<times> int list \<times> int list \<times> int list \<Rightarrow>
    error + int list \<times> int list \<times> int list \<times> int list" where
  "findClusters_nb off RANK i v u st =
     (case st of (PARENT, FORESTROOT, SIZE, CHD) \<Rightarrow>
      bindE (rd RANK (u - off)) (\<lambda>ru.
      if ru < i + 1 then
        bindE (Find (u - off) PARENT) (\<lambda>(jrep, PARENT1).
        bindE (rd FORESTROOT jrep) (\<lambda>w.
        if v \<noteq> w then
          bindE (UnionBySize v jrep (PARENT1, FORESTROOT, SIZE)) (\<lambda>(PARENT2, FORESTROOT2, SIZE2).
          bindE (if CHD = [] then Inr True
                 else bindE (rd SIZE2 (hd CHD)) (\<lambda>sf. bindE (rd SIZE2 w) (\<lambda>sw. Inr (sf \<ge> sw))))
            (\<lambda>back. Inr (PARENT2, FORESTROOT2, SIZE2, if back then CHD @ [w] else w # CHD)))
        else Inr (PARENT1, FORESTROOT, SIZE, CHD)))
      else Inr (PARENT, FORESTROOT, SIZE, CHD)))"

text \<open>One iteration of the outer loop; the state is \<open>(PARENT, FORESTROOT, SIZE, CHILD)\<close>.\<close>

definition findClusters_node :: "int \<Rightarrow> int list list \<Rightarrow> int list \<Rightarrow> int list \<Rightarrow> int \<Rightarrow>
    int list \<times> int list \<times> int list \<times> int list list \<Rightarrow>
    error + int list \<times> int list \<times> int list \<times> int list list" where
  "findClusters_node off ADJ ORD RANK i st =
     (case st of (PARENT, FORESTROOT, SIZE, CHILD) \<Rightarrow>
      bindE (rd ORD i) (\<lambda>ord_i. let v = ord_i - off in
      bindE (rd ADJ v) (\<lambda>IDS.
      bindE (for_loop IDS (findClusters_nb off RANK i v) (PARENT, FORESTROOT, SIZE, []))
        (\<lambda>(PARENT', FORESTROOT', SIZE', CHD).
      bindE (wr CHILD v CHD) (\<lambda>CHILD'. Inr (PARENT', FORESTROOT', SIZE', CHILD'))))))"

text \<open>The result vector is \<open>SIZE\<close>, then \<open>ROOT\<close>, then the \<open>m\<close> child lists.\<close>

definition findClusters_off :: "int \<Rightarrow> int \<Rightarrow> int list list \<Rightarrow> int list \<Rightarrow> int list \<Rightarrow>
    error + int list list" where
  "findClusters_off off m ADJ ORD RANK =
     bindE (new_vector m []) (\<lambda>CHILD0.
     bindE (new_vector m 1) (\<lambda>SIZE0.
     bindE (for_loop [0..m - 1] (findClusters_node off ADJ ORD RANK)
              ([0..m - 1], [0..m - 1], SIZE0, CHILD0)) (\<lambda>(PARENT, FORESTROOT, SIZE, CHILD).
     bindE (for_loop [0..m - 1]
              (\<lambda>i ROOT. bindE (rd PARENT i) (\<lambda>par_i.
                 if par_i = i then bindE (rd FORESTROOT i) (\<lambda>f. Inr (ROOT @ [f])) else Inr ROOT)) [])
       (\<lambda>ROOT. Inr (SIZE # ROOT # CHILD)))))"

definition findClusters :: "int \<Rightarrow> int list list \<Rightarrow> int list \<Rightarrow> int list \<Rightarrow> error + int list list" where
  "findClusters = findClusters_off 1"

definition findClusters_zeroBased :: "int \<Rightarrow> int list list \<Rightarrow> int list \<Rightarrow> int list \<Rightarrow>
    error + int list list" where
  "findClusters_zeroBased = findClusters_off 0"


section \<open>TDP propagation (ARICluster.cpp)\<close>

subsection \<open>descendants\<close>

text \<open>
  The loop \<open>for (j = CHD.size() - 1; j >= 0; j--) { top--; DESC[top] = CHD[j]; }\<close>, given the
  children in the order they are pushed.
\<close>

fun push_children :: "int list \<Rightarrow> int list \<Rightarrow> int \<Rightarrow> error + int list \<times> int" where
  "push_children [] DESC tp = Inr (DESC, tp)"
| "push_children (c # cs) DESC tp =
     bindE (wr DESC (tp - 1) c) (\<lambda>DESC'. push_children cs DESC' (tp - 1))"

text \<open>Bitwise negation \<open>~v\<close> of a two's complement \<open>int\<close> is \<open>- v - 1\<close>.\<close>

partial_function (option) descendants_loop ::
    "int list list \<Rightarrow> int list \<Rightarrow> int \<Rightarrow> int \<Rightarrow> (error + int list) option" where
  "descendants_loop CHILD DESC len tp =
     (if tp < int (length DESC) then
        (case rd DESC tp of
           Inl e \<Rightarrow> Some (Inl e)
         | Inr v \<Rightarrow>
             if v < 0 then
               (case wr DESC len (- v - 1) of
                  Inl e \<Rightarrow> Some (Inl e)
                | Inr DESC1 \<Rightarrow> descendants_loop CHILD DESC1 (len + 1) (tp + 1))
             else
               (case bindE (wr DESC tp (- v - 1)) (\<lambda>DESC1.
                     bindE (rd CHILD v) (\<lambda>CHD. push_children (rev CHD) DESC1 tp)) of
                  Inl e \<Rightarrow> Some (Inl e)
                | Inr (DESC2, tp2) \<Rightarrow> descendants_loop CHILD DESC2 len tp2))
      else Some (Inr DESC))"

declare descendants_loop.simps [code]

definition descendants :: "int \<Rightarrow> int list \<Rightarrow> int list list \<Rightarrow> error + int list" where
  "descendants v SIZE CHILD =
     bindE (rd SIZE v) (\<lambda>sz.
     bindE (new_vector sz 0) (\<lambda>DESC0.
     bindE (wr DESC0 (sz - 1) v) (\<lambda>DESC1.
     run (descendants_loop CHILD DESC1 0 (sz - 1)))))"

subsection \<open>heavyPathTDP and forestTDP\<close>

partial_function (option) heavyPathTDP_walk ::
    "real list \<Rightarrow> int list \<Rightarrow> int list list \<Rightarrow> int list \<Rightarrow> int \<Rightarrow> int \<Rightarrow> real list \<Rightarrow>
     (error + real list) option" where
  "heavyPathTDP_walk P SIZE CHILD NUM v par TDP =
     (case bindE (bindE (if par = - 1 then Inr True
                         else bindE (rd P v) (\<lambda>pv. bindE (rd P par) (\<lambda>pp. Inr (pv \<noteq> pp))))
                   (\<lambda>stc. if stc
                           then bindE (rd SIZE v) (\<lambda>sz. bindE (rd NUM sz) (\<lambda>n.
                                  wr TDP v (of_int n / of_int sz)))
                           else wr TDP v (- 1)))
            (\<lambda>TDP'. bindE (rd SIZE v) (\<lambda>sz. Inr (TDP', sz))) of
        Inl e \<Rightarrow> Some (Inl e)
      | Inr (TDP', sz) \<Rightarrow>
          if sz = 1 then Some (Inr TDP')
          else (case bindE (rd CHILD v) (\<lambda>CHD. rd CHD 0) of
                  Inl e \<Rightarrow> Some (Inl e)
                | Inr c \<Rightarrow> heavyPathTDP_walk P SIZE CHILD NUM c v TDP'))"

declare heavyPathTDP_walk.simps [code]

definition heavyPathTDP :: "int \<Rightarrow> int \<Rightarrow> int \<Rightarrow> int \<Rightarrow> real \<Rightarrow> real \<Rightarrow> real list \<Rightarrow> int list \<Rightarrow>
    int list list \<Rightarrow> real list \<Rightarrow> error + real list" where
  "heavyPathTDP v par m h alpha simesh P SIZE CHILD TDP =
     bindE (descendants v SIZE CHILD) (\<lambda>HP0.
     let HP = map (\<lambda>x. x + 1) HP0 in
     bindE (findDiscoveries HP P simesh h alpha (int (length HP)) m) (\<lambda>NUM.
     run (heavyPathTDP_walk P SIZE CHILD NUM v par TDP)))"

definition forestTDP :: "int \<Rightarrow> int \<Rightarrow> real \<Rightarrow> real \<Rightarrow> real list \<Rightarrow> int list \<Rightarrow> int list \<Rightarrow>
    int list list \<Rightarrow> error + real list" where
  "forestTDP m h alpha simesh P SIZE ROOT CHILD =
     bindE (new_vector m 0) (\<lambda>TDP0.
     bindE (for_loop ROOT (\<lambda>r TDP. heavyPathTDP r (- 1) m h alpha simesh P SIZE CHILD TDP) TDP0)
       (\<lambda>TDP1.
     for_loop [0..m - 1]
       (\<lambda>i TDP. bindE (rd CHILD i) (\<lambda>CHD.
          for_loop (drop 1 CHD) (\<lambda>c TDP. heavyPathTDP c i m h alpha simesh P SIZE CHILD TDP) TDP))
       TDP1))"

section \<open>Query engine (ARICluster.cpp)\<close>

subsection \<open>queryPreparation\<close>

text \<open>
  \<open>STACK\<close> holds a node and the maximal TDP seen above it in two consecutive \<open>double\<close>
  slots; the model keeps the two as a pair, the top of the stack first.
\<close>

partial_function (option) queryPreparation_loop ::
    "real list \<Rightarrow> int list list \<Rightarrow> (int \<times> real) list \<Rightarrow> int list \<Rightarrow> (error + int list) option" where
  "queryPreparation_loop TDP CHILD STACK ADMSTC =
     (case STACK of
        [] \<Rightarrow> Some (Inr ADMSTC)
      | (v, q) # rest \<Rightarrow>
          (case bindE (rd TDP v) (\<lambda>tv. bindE (rd CHILD v) (\<lambda>CHD. Inr (tv, CHD))) of
             Inl e \<Rightarrow> Some (Inl e)
           | Inr (tv, CHD) \<Rightarrow>
               queryPreparation_loop TDP CHILD (rev (map (\<lambda>c. (c, max tv q)) CHD) @ rest)
                 (if tv > q then ADMSTC @ [v] else ADMSTC)))"

declare queryPreparation_loop.simps [code]

definition queryPreparation_walk :: "int list \<Rightarrow> real list \<Rightarrow> int list list \<Rightarrow> error + int list" where
  "queryPreparation_walk ROOT TDP CHILD =
     for_loop ROOT (\<lambda>r ADMSTC. run (queryPreparation_loop TDP CHILD [(r, - 1)] ADMSTC)) []"

text \<open>
  \<open>std::sort\<close> with the comparator \<open>TDP[i] < TDP[j]\<close> leaves the order of entries of equal
  TDP unspecified; the model sorts stably.
\<close>

definition queryPreparation :: "int \<Rightarrow> int list \<Rightarrow> real list \<Rightarrow> int list list \<Rightarrow> error + int list" where
  "queryPreparation m ROOT TDP CHILD =
     bindE (queryPreparation_walk ROOT TDP CHILD) (\<lambda>ADMSTC.
       Inr (sort_key (\<lambda>v. TDP ! nat v) ADMSTC))"

subsection \<open>findLeft\<close>

function findLeft_loop :: "real \<Rightarrow> int list \<Rightarrow> real list \<Rightarrow> int \<Rightarrow> int \<Rightarrow> int \<Rightarrow> error + int" where
  "findLeft_loop gamma ADMSTC TDP low high right =
     (if low < high then
        (let mid = c_div (low + high) 2 in
         bindE (rd ADMSTC mid) (\<lambda>a. bindE (rd TDP a) (\<lambda>t.
         bindE (rd ADMSTC (right - 1)) (\<lambda>b. bindE (rd TDP b) (\<lambda>tb.
           if tb < gamma then Inr (right - 1 + 1)
           else if t \<ge> gamma then findLeft_loop gamma ADMSTC TDP low mid (right - 1)
           else findLeft_loop gamma ADMSTC TDP (mid + 1) high (right - 1))))))
      else Inr low)"
  by pat_completeness auto
termination
proof (relation "measure (\<lambda>(gamma, ADMSTC, TDP, low, high, right). nat right)")
  show "wf (measure (\<lambda>(gamma, ADMSTC, TDP, low, high, right). nat right))" by simp
next
  fix gamma :: real and ADMSTC :: "int list" and TDP :: "real list" and low high right mid b :: int
  assume "rd ADMSTC (right - 1) = Inr b"
  then have "0 \<le> right - 1"
    by (auto simp: rd_def inb_def split: if_splits)
  then show "((gamma, ADMSTC, TDP, low, mid, right - 1), gamma, ADMSTC, TDP, low, high, right)
      \<in> measure (\<lambda>(gamma, ADMSTC, TDP, low, high, right). nat right)"
    by simp
next
  fix gamma :: real and ADMSTC :: "int list" and TDP :: "real list" and low high right mid b :: int
  assume "rd ADMSTC (right - 1) = Inr b"
  then have "0 \<le> right - 1"
    by (auto simp: rd_def inb_def split: if_splits)
  then show "((gamma, ADMSTC, TDP, mid + 1, high, right - 1), gamma, ADMSTC, TDP, low, high, right)
      \<in> measure (\<lambda>(gamma, ADMSTC, TDP, low, high, right). nat right)"
    by simp
qed

definition findLeft :: "real \<Rightarrow> int list \<Rightarrow> real list \<Rightarrow> error + int" where
  "findLeft gamma ADMSTC TDP =
     findLeft_loop gamma ADMSTC TDP 0 (int (length ADMSTC)) (int (length ADMSTC))"

subsection \<open>answerQuery and answerQueryBatch\<close>

text \<open>\<open>for (j = 0; j < DESC.size(); j++) MARK[DESC[j]] = x\<close>.\<close>

definition mark_all :: "int list \<Rightarrow> int \<Rightarrow> int list \<Rightarrow> error + int list" where
  "mark_all DESC x MARK = for_loop DESC (\<lambda>d MARK'. wr MARK' d x) MARK"

definition answerQuery_step :: "int list \<Rightarrow> int list \<Rightarrow> int list list \<Rightarrow> int \<Rightarrow>
    int list list \<times> int list \<Rightarrow> error + int list list \<times> int list" where
  "answerQuery_step ADMSTC SIZE CHILD i st =
     (case st of (ANS, MARK) \<Rightarrow>
      bindE (rd ADMSTC i) (\<lambda>a. bindE (rd MARK a) (\<lambda>mk.
        if mk = 0 then
          bindE (descendants a SIZE CHILD) (\<lambda>DESC.
          bindE (mark_all DESC 1 MARK) (\<lambda>MARK'. Inr (ANS @ [DESC], MARK')))
        else Inr (ANS, MARK))))"

text \<open>\<open>MARK\<close> is passed by reference: the model returns the clusters and the final \<open>MARK\<close>.\<close>

definition answerQuery :: "real \<Rightarrow> int list \<Rightarrow> int list \<Rightarrow> int list \<Rightarrow> real list \<Rightarrow>
    int list list \<Rightarrow> error + int list list \<times> int list" where
  "answerQuery gamma ADMSTC SIZE MARK TDP CHILD =
     (let gamma' = (if gamma < 0 then 0 else gamma) in
      bindE (findLeft gamma' ADMSTC TDP) (\<lambda>left.
      bindE (for_loop [left..int (length ADMSTC) - 1] (answerQuery_step ADMSTC SIZE CHILD)
               ([], MARK)) (\<lambda>(ANS, MARK1).
      bindE (for_loop ANS (\<lambda>c MARK'. mark_all c 0 MARK') MARK1) (\<lambda>MARK2.
        Inr (ANS, MARK2)))))"



subsection \<open>findRep and findIndex\<close>

function findRep_scan :: "int list \<Rightarrow> int \<Rightarrow> int \<Rightarrow> int \<Rightarrow> error + bool" where
  "findRep_scan CLUS v left right =
     (if left \<le> right then
        bindE (rd CLUS left) (\<lambda>x. if x = v then Inr True else
        bindE (rd CLUS right) (\<lambda>y. if y = v then Inr True else
          findRep_scan CLUS v (left + 1) (right - 1)))
      else Inr False)"
  by pat_completeness auto
termination
  by (relation "measure (\<lambda>(CLUS, v, left, right). nat (right - left + 1))") auto

text \<open>The loop over \<open>ANS\<close> from cluster index \<open>i\<close> on; \<open>- 1\<close> when no cluster holds \<open>v\<close>.\<close>

fun findRep_from :: "int \<Rightarrow> int list \<Rightarrow> int list list \<Rightarrow> int \<Rightarrow> error + int" where
  "findRep_from v SIZE [] i = Inr (- 1)"
| "findRep_from v SIZE (CLUS # rest) i =
     bindE (rd CLUS (int (length CLUS) - 1)) (\<lambda>irep.
     if irep = v then Inr i
     else
       bindE (rd SIZE irep) (\<lambda>sr. bindE (rd SIZE v) (\<lambda>sv.
       bindE (if sr > sv then findRep_scan CLUS v 0 (int (length CLUS) - 1) else Inr False)
         (\<lambda>found. if found then Inr i else findRep_from v SIZE rest (i + 1)))))"

definition findRep :: "int \<Rightarrow> int list \<Rightarrow> int list list \<Rightarrow> error + int" where
  "findRep v SIZE ANS = findRep_from v SIZE ANS 0"

function findIndex_loop :: "int \<Rightarrow> int list \<Rightarrow> real list \<Rightarrow> int \<Rightarrow> int \<Rightarrow> int \<Rightarrow> int \<Rightarrow> error + int" where
  "findIndex_loop irep ADMSTC TDP low high left right =
     (if low \<le> high then
        (let mid = c_div (low + high) 2 in
         bindE (rd ADMSTC mid) (\<lambda>a. bindE (rd TDP a) (\<lambda>t. bindE (rd TDP irep) (\<lambda>ti.
         if t > ti \<or> t < ti then
           bindE (rd ADMSTC right) (\<lambda>b. if b = irep then Inr right else
           bindE (rd ADMSTC left) (\<lambda>c. if c = irep then Inr left else
             if t > ti
             then findIndex_loop irep ADMSTC TDP low (mid - 1) (left + 1) (right - 1)
             else findIndex_loop irep ADMSTC TDP (mid + 1) high (left + 1) (right - 1)))
         else Inr mid))))
      else Inr (- 1))"
  by pat_completeness auto
termination
proof (relation "measure (\<lambda>(irep, ADMSTC, TDP, low, high, left, right). nat (right + 1))")
  show "wf (measure (\<lambda>(irep, ADMSTC, TDP, low, high, left, right). nat (right + 1)))" by simp
next
  fix irep :: int and ADMSTC :: "int list" and TDP :: "real list"
    and low high left right mid b :: int
  assume "rd ADMSTC right = Inr b"
  then have "0 \<le> right"
    by (auto simp: rd_def inb_def split: if_splits)
  then show "((irep, ADMSTC, TDP, low, mid - 1, left + 1, right - 1),
       irep, ADMSTC, TDP, low, high, left, right)
      \<in> measure (\<lambda>(irep, ADMSTC, TDP, low, high, left, right). nat (right + 1))"
    by simp
next
  fix irep :: int and ADMSTC :: "int list" and TDP :: "real list"
    and low high left right mid b :: int
  assume "rd ADMSTC right = Inr b"
  then have "0 \<le> right"
    by (auto simp: rd_def inb_def split: if_splits)
  then show "((irep, ADMSTC, TDP, mid + 1, high, left + 1, right - 1),
       irep, ADMSTC, TDP, low, high, left, right)
      \<in> measure (\<lambda>(irep, ADMSTC, TDP, low, high, left, right). nat (right + 1))"
    by simp
qed

definition findIndex :: "int \<Rightarrow> int list \<Rightarrow> real list \<Rightarrow> error + int" where
  "findIndex irep ADMSTC TDP =
     findIndex_loop irep ADMSTC TDP 0 (int (length ADMSTC) - 1) 0 (int (length ADMSTC) - 1)"

subsection \<open>changeQuery\<close>

datatype 'a outcome = Returned 'a | Threw string

text \<open>
  Conversion of an \<open>int\<close> to the 64-bit \<open>size_t\<close>, which the usual arithmetic conversions
  apply wherever the source compares an \<open>int\<close> with a \<open>size()\<close>.
\<close>

definition to_size_t :: "int \<Rightarrow> int" where
  "to_size_t x = x mod 2 ^ 64"

text \<open>
  Grow branch, \<open>while (left <= right)\<close>: does \<open>DESC\<close> touch a marked voxel at one of the two
  pointers?
\<close>

function changeQuery_touch :: "int list \<Rightarrow> int list \<Rightarrow> int \<Rightarrow> int \<Rightarrow> error + bool" where
  "changeQuery_touch MARK DESC left right =
     (if left \<le> right then
        bindE (bindE (rd DESC left) (\<lambda>dl. bindE (rd MARK dl) (\<lambda>ml.
                 if ml > 0 then Inr True
                 else bindE (rd DESC right) (\<lambda>dr. bindE (rd MARK dr) (\<lambda>mr. Inr (mr > 0))))))
          (\<lambda>hit. if hit then Inr True else changeQuery_touch MARK DESC (left + 1) (right - 1))
      else Inr False)"
  by pat_completeness auto
termination
  by (relation "measure (\<lambda>(MARK, DESC, left, right). nat (right - left + 1))") auto

text \<open>
  Grow branch, \<open>while (r - l >= CL.size() - 1)\<close>, with \<open>ncl = CL.size()\<close>. The comparison
  is between an \<open>int\<close> and a \<open>size_t\<close>, so both sides are unsigned. The result is whether the
  \<open>break\<close> was taken, and the final \<open>l\<close> and \<open>r\<close>.
\<close>

function changeQuery_contains :: "int list \<Rightarrow> int list \<Rightarrow> int \<Rightarrow> int \<Rightarrow> int \<Rightarrow>
    error + bool \<times> int \<times> int" where
  "changeQuery_contains MARK DESC ncl l r =
     (if to_size_t (r - l) \<ge> to_size_t (ncl - 1) then
        bindE (bindE (rd DESC l) (\<lambda>dl. bindE (rd MARK dl) (\<lambda>ml.
                 if ml = 2 then Inr True
                 else bindE (rd DESC r) (\<lambda>dr. bindE (rd MARK dr) (\<lambda>mr. Inr (mr = 2))))))
          (\<lambda>hit. if hit then Inr (True, l, r)
                  else changeQuery_contains MARK DESC ncl (l + 1) (r - 1))
      else Inr (False, l, r))"
  by pat_completeness auto
termination
proof (relation "measure (\<lambda>(MARK, DESC, ncl, l, r). nat (int (length DESC) - l))")
  show "wf (measure (\<lambda>(MARK, DESC, ncl, l, r). nat (int (length DESC) - l)))" by simp
next
  fix MARK DESC :: "int list" and ncl l r :: int and hit :: bool
  assume "bindE (rd DESC l) (\<lambda>dl. bindE (rd MARK dl) (\<lambda>ml.
                 if ml = 2 then Inr True
                 else bindE (rd DESC r) (\<lambda>dr. bindE (rd MARK dr) (\<lambda>mr. Inr (mr = 2))))) = Inr hit"
  then have "inb DESC l"
    by (auto simp: bindE_def rd_def split: sum.splits if_splits)
  then show "((MARK, DESC, ncl, l + 1, r - 1), MARK, DESC, ncl, l, r)
      \<in> measure (\<lambda>(MARK, DESC, ncl, l, r). nat (int (length DESC) - l))"
    by (simp add: inb_def)
qed

text \<open>
  Grow branch, one cluster \<open>CL = ANS[j]\<close>, \<open>j \<noteq> iclus\<close>, of the loop that appends the remaining
  clusters; the state is \<open>(CHG, MARK, dfsz)\<close>.
\<close>

definition changeQuery_other :: "int list \<Rightarrow> int list \<Rightarrow> int list list \<times> int list \<times> int \<Rightarrow>
    error + int list list \<times> int list \<times> int" where
  "changeQuery_other DESC CL st =
     (case st of (CHG, MARK, dfsz) \<Rightarrow>
      if to_size_t dfsz \<ge> int (length CL) then
        bindE (mark_all CL 2 MARK) (\<lambda>MARK1.
        bindE (changeQuery_contains MARK1 DESC (int (length CL)) 0 (int (length DESC) - 1))
          (\<lambda>(hit, l, r).
        bindE (if to_size_t l > to_size_t (int (length DESC) - 1) \<or> r < 0 then Inr True
               else bindE (rd DESC l) (\<lambda>dl. bindE (rd MARK1 dl) (\<lambda>ml.
                      if ml \<noteq> 2
                      then bindE (rd DESC r) (\<lambda>dr. bindE (rd MARK1 dr) (\<lambda>mr. Inr (mr \<noteq> 2)))
                      else Inr False)))
          (\<lambda>keep.
        bindE (mark_all CL 0 MARK1) (\<lambda>MARK2.
          Inr (if keep then CHG @ [CL] else CHG, MARK2,
               if hit then dfsz - int (length CL) else dfsz)))))
      else Inr (CHG @ [CL], MARK, dfsz))"

text \<open>Grow branch, the block that builds the result once \<open>DESC\<close> touches the marked cluster.\<close>

definition changeQuery_grow_found :: "int list \<Rightarrow> int list \<Rightarrow> int list list \<Rightarrow> int \<Rightarrow> int list \<Rightarrow>
    error + int list list \<times> int list" where
  "changeQuery_grow_found DESC CLUS ANS iclus MARK =
     bindE (for_loop [0..int (length ANS) - 1]
              (\<lambda>j st. if j \<noteq> iclus then bindE (rd ANS j) (\<lambda>CL. changeQuery_other DESC CL st)
                       else Inr st)
              ([DESC], MARK, int (length DESC) - int (length CLUS)))
       (\<lambda>(CHG, MARK1, dfsz).
     bindE (mark_all CLUS 0 MARK1) (\<lambda>MARK2. Inr (CHG, MARK2)))"

text \<open>
  Grow branch, \<open>for (i = idxv - 1; i >= 0; i--)\<close>; the first argument is \<open>i + 1\<close>. \<open>None\<close>
  when the loop ends without a \<open>return\<close>.
\<close>

fun changeQuery_grow :: "nat \<Rightarrow> real \<Rightarrow> int \<Rightarrow> int \<Rightarrow> int list \<Rightarrow> int list \<Rightarrow> real list \<Rightarrow>
    int list list \<Rightarrow> int list list \<Rightarrow> int list \<Rightarrow> int list \<Rightarrow>
    error + (int list list \<times> int list) option" where
  "changeQuery_grow 0 tdpchg idxv iclus ADMSTC SIZE TDP CHILD ANS CLUS MARK = Inr None"
| "changeQuery_grow (Suc i) tdpchg idxv iclus ADMSTC SIZE TDP CHILD ANS CLUS MARK =
     bindE (rd ADMSTC (int i)) (\<lambda>a. bindE (rd TDP a) (\<lambda>ta.
     bindE (if ta \<ge> 0
            then bindE (rd ADMSTC idxv) (\<lambda>av. bindE (rd TDP av) (\<lambda>tv.
                   if ta - tv \<le> tdpchg
                   then bindE (rd SIZE a) (\<lambda>sa. bindE (rd SIZE av) (\<lambda>sv. Inr (sa > sv)))
                   else Inr False))
            else Inr False) (\<lambda>cand.
     if cand then
       bindE (descendants a SIZE CHILD) (\<lambda>DESC.
       bindE (changeQuery_touch MARK DESC 0 (int (length DESC) - 1)) (\<lambda>touch.
       if touch then bindE (changeQuery_grow_found DESC CLUS ANS iclus MARK) (\<lambda>res. Inr (Some res))
       else changeQuery_grow i tdpchg idxv iclus ADMSTC SIZE TDP CHILD ANS CLUS MARK))
     else changeQuery_grow i tdpchg idxv iclus ADMSTC SIZE TDP CHILD ANS CLUS MARK)))"

text \<open>Shrink branch, one iteration of \<open>for (i = idxv + 1; i < ADMSTC.size(); i++)\<close>.\<close>

definition changeQuery_shrink :: "real \<Rightarrow> int \<Rightarrow> int list \<Rightarrow> int list \<Rightarrow> real list \<Rightarrow>
    int list list \<Rightarrow> int \<Rightarrow> int list list \<times> int list \<Rightarrow> error + int list list \<times> int list" where
  "changeQuery_shrink tdpchg idxv ADMSTC SIZE TDP CHILD i st =
     (case st of (CHG, MARK) \<Rightarrow>
      bindE (rd ADMSTC i) (\<lambda>a. bindE (rd TDP a) (\<lambda>ta.
      bindE (if ta \<ge> 0
             then bindE (rd ADMSTC idxv) (\<lambda>av. bindE (rd TDP av) (\<lambda>tv.
                    if ta - tv \<ge> tdpchg then bindE (rd MARK a) (\<lambda>mk. Inr (mk = 1))
                    else Inr False))
             else Inr False) (\<lambda>cand.
      if cand then
        bindE (descendants a SIZE CHILD) (\<lambda>DESC.
        bindE (mark_all DESC 2 MARK) (\<lambda>MARK'. Inr (CHG @ [DESC], MARK')))
      else Inr (CHG, MARK)))))"

text \<open>
  The result is the outcome (the cluster list, or the exception) and the \<open>MARK\<close> buffer as
  the call leaves it.
\<close>

definition changeQuery :: "int \<Rightarrow> real \<Rightarrow> int list \<Rightarrow> int list \<Rightarrow> int list \<Rightarrow> real list \<Rightarrow>
    int list list \<Rightarrow> int list list \<Rightarrow> error + int list list outcome \<times> int list" where
  "changeQuery v tdpchg ADMSTC SIZE MARK TDP CHILD ANS =
     (if v < 0 then Inr (Threw ''v should be non-negative'', MARK)
      else
        bindE (findRep v SIZE ANS) (\<lambda>iclus.
        if iclus < 0 then Inr (Threw ''No cluster can be specified with v'', MARK)
        else
          bindE (rd ANS iclus) (\<lambda>CLUS.
          bindE (rd CLUS (int (length CLUS) - 1)) (\<lambda>crep.
          bindE (findIndex crep ADMSTC TDP) (\<lambda>idxv.
          if idxv < 0 then Inr (Threw ''The chosen cluster cannot be found in ADMSTC'', MARK)
          else if tdpchg \<le> - 1 \<or> tdpchg = 0 \<or> tdpchg \<ge> 1
          then Inr (Threw ''tdpchg must be non-zero & within (-1,1)'', MARK)
          else
            bindE (rd ADMSTC (int (length ADMSTC) - 1)) (\<lambda>amax. bindE (rd TDP amax) (\<lambda>maxtdp.
            bindE (rd ADMSTC 0) (\<lambda>amin. bindE (rd TDP amin) (\<lambda>mintdp.
            bindE (rd TDP crep) (\<lambda>curtdp.
            if (tdpchg < 0 \<and> mintdp = curtdp) \<or> (tdpchg > 0 \<and> maxtdp = curtdp)
            then Inr (Threw ''No further changes can be attained'', MARK)
            else if tdpchg < 0 \<and> mintdp - curtdp > tdpchg
            then Inr (Threw ''A further TDP reduction cannot be achieved'', MARK)
            else if tdpchg > 0 \<and> maxtdp - curtdp < tdpchg
            then Inr (Threw ''A further TDP augmentation cannot be achieved'', MARK)
            else
              bindE (mark_all CLUS 1 MARK) (\<lambda>MARK1.
              if tdpchg < 0 then
                bindE (changeQuery_grow (nat idxv) tdpchg idxv iclus ADMSTC SIZE TDP CHILD ANS
                         CLUS MARK1) (\<lambda>res.
                case res of
                  Some (CHG, MARK2) \<Rightarrow> Inr (Returned CHG, MARK2)
                | None \<Rightarrow> bindE (mark_all CLUS 0 MARK1) (\<lambda>MARK2. Inr (Returned [], MARK2)))
              else
                bindE (for_loop [idxv + 1..int (length ADMSTC) - 1]
                         (changeQuery_shrink tdpchg idxv ADMSTC SIZE TDP CHILD) ([], MARK1))
                  (\<lambda>(CHG, MARK2).
                bindE (for_loop [0..int (length ANS) - 1]
                         (\<lambda>j CHG'. if j \<noteq> iclus then bindE (rd ANS j) (\<lambda>CL. Inr (CHG' @ [CL]))
                                    else Inr CHG') CHG) (\<lambda>CHG3.
                bindE (mark_all CLUS 0 MARK2) (\<lambda>MARK3. Inr (Returned CHG3, MARK3)))))))))))))))"

section \<open>Basic facts about the embedding\<close>

lemma rd_Inr [simp]: "inb xs i \<Longrightarrow> rd xs i = Inr (xs ! nat i)"
  by (simp add: rd_def)

lemma bindE_Inr [simp]: "bindE (Inr x) f = f x"
  by (simp add: bindE_def)

lemma bindE_Inl [simp]: "bindE (Inl e) f = Inl e"
  by (simp add: bindE_def)

lemma for_loop_append:
  "for_loop (xs @ ys) body s = bindE (for_loop xs body s) (for_loop ys body)"
  by (induction xs arbitrary: s) (auto simp: bindE_def split: sum.splits)

lemma for_loop_rule_aux:
  assumes step: "\<And>pre i s. P pre s \<Longrightarrow> (\<exists>post. all = pre @ i # post) \<Longrightarrow>
                   \<exists>s'. body i s = Inr s' \<and> P (pre @ [i]) s'"
  shows "P pre s \<Longrightarrow> all = pre @ rest \<Longrightarrow> \<exists>s'. for_loop rest body s = Inr s' \<and> P all s'"
proof (induction rest arbitrary: pre s)
  case Nil
  then show ?case by simp
next
  case (Cons i rest)
  have "\<exists>post. all = pre @ i # post" using Cons.prems(2) by blast
  from step [OF Cons.prems(1) this]
  obtain s' where s': "body i s = Inr s'" "P (pre @ [i]) s'" by auto
  from Cons.IH [OF s'(2)] Cons.prems(2)
  show ?case using s'(1) by simp
qed

lemma for_loop_rule:
  assumes "P [] s"
    and "\<And>pre i s. P pre s \<Longrightarrow> (\<exists>post. all = pre @ i # post) \<Longrightarrow>
                   \<exists>s'. body i s = Inr s' \<and> P (pre @ [i]) s'"
  shows "\<exists>s'. for_loop all body s = Inr s' \<and> P all s'"
  using for_loop_rule_aux [of P all body "[]" s all] assms by simp


lemma bindE_Inr_iff: "bindE r f = Inr y \<longleftrightarrow> (\<exists>x. r = Inr x \<and> f x = Inr y)"
  by (cases r) auto


lemma wr_Inr_iff: "wr xs i v = Inr ys \<longleftrightarrow> inb xs i \<and> ys = xs[nat i := v]"
  by (auto simp: wr_def)

lemma for_loop_partial_aux:
  assumes step: "\<And>pre x s s'. P pre s \<Longrightarrow> body x s = Inr s' \<Longrightarrow> (\<exists>post. all = pre @ x # post) \<Longrightarrow>
                   P (pre @ [x]) s'"
  shows "for_loop rest body s = Inr s' \<Longrightarrow> P pre s \<Longrightarrow> all = pre @ rest \<Longrightarrow> P all s'"
proof (induction rest arbitrary: pre s)
  case Nil
  then show ?case by simp
next
  case (Cons x rest)
  from Cons.prems(1) obtain s1 where s1: "body x s = Inr s1" "for_loop rest body s1 = Inr s'"
    by (auto simp: bindE_Inr_iff)
  have "\<exists>post. all = pre @ x # post" using Cons.prems(3) by blast
  from step [OF Cons.prems(2) s1(1) this] have "P (pre @ [x]) s1" .
  from Cons.IH [OF s1(2) this] Cons.prems(3) show ?case by simp
qed

lemma for_loop_partial:
  assumes "for_loop all body s = Inr s'" and "P [] s"
    and "\<And>pre x s s'. P pre s \<Longrightarrow> body x s = Inr s' \<Longrightarrow> (\<exists>post. all = pre @ x # post) \<Longrightarrow>
                   P (pre @ [x]) s'"
  shows "P all s'"
  using for_loop_partial_aux [of P body all all s s' "[]"] assms by simp

text \<open>Partial correctness: \<open>post Q r\<close> says that \<open>Q\<close> holds of the result if \<open>r\<close> returns one.\<close>

definition post :: "('a \<Rightarrow> bool) \<Rightarrow> error + 'a \<Rightarrow> bool" where
  "post Q r \<longleftrightarrow> (\<forall>x. r = Inr x \<longrightarrow> Q x)"







section \<open>Properties of findhull\<close>

lemma notconvex_test_ok:
  assumes "length p = nat m" "0 \<le> i" "i < m" "\<forall>x\<in>set hul. 0 \<le> x \<and> x < m"
  shows "\<exists>b. notconvex_test p i hul = Inr b \<and> (b \<longrightarrow> hul \<noteq> [])"
proof -
  have inb_p: "inb p x" if "0 \<le> x" "x < m" for x
    using assms(1) that by (auto simp: inb_def)
  have ent: "inb hul k \<and> inb p (hul ! nat k)" if "0 \<le> k" "k < int (length hul)" for k
  proof -
    have "hul ! nat k \<in> set hul" using that by simp
    with assms(4) inb_p that show ?thesis by (auto simp: inb_def)
  qed
  consider "int (length hul) - 1 > 0" | "int (length hul) - 1 = 0" | "int (length hul) - 1 < 0"
    by linarith
  then show ?thesis
  proof cases
    case 1
    have "inb hul (int (length hul) - 1 - 1) \<and> inb p (hul ! nat (int (length hul) - 1 - 1))"
      by (rule ent) (use 1 in linarith)+
    moreover have "inb hul (int (length hul) - 1) \<and> inb p (hul ! nat (int (length hul) - 1))"
      by (rule ent) (use 1 in linarith)+
    ultimately show ?thesis
      using 1 inb_p [OF assms(2,3)] by (auto simp: notconvex_test_def Let_def)
  next
    case 2
    have "inb hul 0 \<and> inb p (hul ! nat 0)"
      by (rule ent) (use 2 in linarith)+
    then show ?thesis
      using 2 inb_p [OF assms(2,3)] by (auto simp: notconvex_test_def Let_def)
  next
    case 3
    then show ?thesis by (auto simp: notconvex_test_def Let_def)
  qed
qed

lemma findhull_pop_ok:
  assumes "length p = nat m" "0 \<le> i" "i < m"
  shows "\<forall>x\<in>set hul. 0 \<le> x \<and> x < m \<Longrightarrow>
         \<exists>hul'. findhull_pop p i hul = Inr hul' \<and> set hul' \<subseteq> set hul"
proof (induction hul rule: length_induct)
  case (1 hul)
  obtain b where b: "notconvex_test p i hul = Inr b" "b \<longrightarrow> hul \<noteq> []"
    using notconvex_test_ok [OF assms 1(2)] by blast
  show ?case
  proof (cases b)
    case True
    with b have ne: "hul \<noteq> []" by simp
    then have len: "length (take (nat (int (length hul) - 1)) hul) < length hul"
      by (cases hul) auto
    have sub: "set (take (nat (int (length hul) - 1)) hul) \<subseteq> set hul"
      by (rule set_take_subset)
    from 1(1) len sub 1(2)
    obtain hul' where "findhull_pop p i (take (nat (int (length hul) - 1)) hul) = Inr hul'"
      "set hul' \<subseteq> set (take (nat (int (length hul) - 1)) hul)"
      by (metis subsetD)
    with sub b True show ?thesis
      by (subst findhull_pop.simps) auto
  next
    case False
    with b show ?thesis by (subst findhull_pop.simps) auto
  qed
qed

lemma findhull_pop_origin:
  assumes "length p = nat m" "1 \<le> i" "i < m" "0 \<le> p ! 0"
  shows "findhull_pop p i [0] = Inr []"
proof -
  have "inb p 0" "inb p i" using assms by (auto simp: inb_def)
  then have t: "notconvex_test p i [0] = Inr True"
    using assms by (simp add: notconvex_test_def inb_def)
  have f: "notconvex_test p i [] = Inr False"
    by (simp add: notconvex_test_def)
  have "findhull_pop p i [] = Inr []"
    by (subst findhull_pop.simps) (simp add: f)
  then show ?thesis
    by (subst findhull_pop.simps) (simp add: t)
qed

lemma findhull_step_ok:
  assumes m: "length p = nat m" and i: "1 \<le> i" "i \<le> m - 1" and p0: "0 \<le> p ! 0"
    and bnd: "\<forall>x\<in>set hul. 0 \<le> x \<and> x < m" and org: "hul = [0] \<or> 0 \<notin> set hul"
  shows "\<exists>hul'. findhull_step m p i hul = Inr hul' \<and> (\<forall>x\<in>set hul'. 0 \<le> x \<and> x < m) \<and>
           (hul' = [0] \<or> 0 \<notin> set hul') \<and>
           (i = m - 1 \<longrightarrow> hul' \<noteq> [] \<and> last hul' = m - 1 \<and> 0 \<notin> set hul')"
proof -
  have inb: "inb p i" "inb p 0" "inb p (m - 1)"
    using m i by (auto simp: inb_def)
  obtain admit where admit:
    "(if i = m - 1 then Inr True
      else bindE (rd p i) (\<lambda>p_i. bindE (rd p 0) (\<lambda>p0. bindE (rd p (m - 1)) (\<lambda>pm.
             Inr (of_int (m - 1) * (p_i - p0) < of_int i * (pm - p0)))))) = Inr admit"
    "i = m - 1 \<longrightarrow> admit"
    using inb by (cases "i = m - 1") auto
  have pop: "\<exists>hul'. findhull_pop p i hul = Inr hul' \<and> set hul' \<subseteq> set hul \<and> 0 \<notin> set hul'"
  proof (cases "hul = [0]")
    case True
    then show ?thesis
      using findhull_pop_origin [OF m, of i] i p0 by simp
  next
    case False
    with org have "0 \<notin> set hul" by simp
    moreover obtain hul' where "findhull_pop p i hul = Inr hul'" "set hul' \<subseteq> set hul"
      using findhull_pop_ok [OF m, of i hul] i bnd by auto
    ultimately show ?thesis by auto
  qed
  show ?thesis
  proof (cases admit)
    case True
    from pop obtain hul' where h: "findhull_pop p i hul = Inr hul'" "set hul' \<subseteq> set hul"
      "0 \<notin> set hul'" by blast
    have "findhull_step m p i hul = Inr (hul' @ [i])"
      unfolding findhull_step_def admit(1) using True h(1) by simp
    moreover have "\<forall>x\<in>set (hul' @ [i]). 0 \<le> x \<and> x < m"
      using h(2) bnd i by auto
    moreover have "0 \<notin> set (hul' @ [i])" using h(3) i by auto
    ultimately show ?thesis using i by auto
  next
    case False
    with admit(2) have "i \<noteq> m - 1" by auto
    moreover have "findhull_step m p i hul = Inr hul"
      unfolding findhull_step_def admit(1) using False by simp
    ultimately show ?thesis using bnd org by auto
  qed
qed


text \<open>
  Claim C9 without the anchor. For \<open>m \<ge> 1\<close> and \<open>p[0..m-1]\<close> with non-negative values (so
  for every non-decreasing \<open>p\<close> with values in \<open>[0, 1]\<close>), \<open>findhull(m, p)\<close> returns a
  non-empty index list whose last element is \<open>m - 1\<close>. Nothing is said about its first
  element.
\<close>

theorem findhull_terminated:
  assumes "1 \<le> m" and "length p = nat m" and "\<forall>x\<in>set p. 0 \<le> x"
  shows "\<exists>hul. findhull m p = Inr hul \<and> hul \<noteq> [] \<and> last hul = m - 1"
proof -
  define P where "P = (\<lambda>(pre :: int list) (hul :: int list).
      (\<forall>x\<in>set hul. 0 \<le> x \<and> x < m) \<and> (hul = [0] \<or> 0 \<notin> set hul) \<and> (pre = [] \<longrightarrow> hul = [0]) \<and>
      (pre \<noteq> [] \<longrightarrow> last pre = m - 1 \<longrightarrow> hul \<noteq> [] \<and> last hul = m - 1 \<and> 0 \<notin> set hul))"
  have p0: "0 \<le> p ! 0" using assms by (cases p) auto
  have init: "P [] [0]" using assms(1) by (simp add: P_def)
  have step: "\<exists>s'. findhull_step m p i s = Inr s' \<and> P (pre @ [i]) s'"
    if "P pre s" and "\<exists>post. [1..m - 1] = pre @ i # post" for pre i s
  proof -
    from that(2) obtain post where "[1..m - 1] = pre @ i # post" by blast
    then have "i \<in> set [1..m - 1]" by simp
    then have i: "1 \<le> i" "i \<le> m - 1" by auto
    from that(1) have "\<forall>x\<in>set s. 0 \<le> x \<and> x < m" "s = [0] \<or> 0 \<notin> set s"
      by (auto simp: P_def)
    from findhull_step_ok [OF assms(2) i p0 this]
    show ?thesis by (auto simp: P_def)
  qed
  from for_loop_rule [of P "[0]" "[1..m - 1]" "findhull_step m p", OF init step]
  obtain hul where hul: "findhull m p = Inr hul" "P [1..m - 1] hul"
    by (auto simp: findhull_def)
  show ?thesis
  proof (cases "m = 1")
    case True
    with hul(2) show ?thesis using hul(1) by (auto simp: P_def)
  next
    case False
    with assms(1) have "2 \<le> m" by simp
    then have "[1..m - 1] \<noteq> []" "last [1..m - 1] = m - 1"
      by (auto simp: upto_rec2)
    with hul(2) \<open>2 \<le> m\<close> show ?thesis using hul(1) by (auto simp: P_def)
  qed
qed

theorem findhull_terminated_witness:
  "\<exists>hul. findhull 3 [0, 1/4, 1/2] = Inr hul \<and> hul \<noteq> [] \<and> last hul = 2"
  using findhull_terminated [of 3 "[0, 1/4, 1/2]"] by simp

text \<open>
  Claim C9 as stated (first element 0) fails at \<open>m = 2\<close>, \<open>p = [0.25, 0.5]\<close>: the hull is
  \<open>[1]\<close>. The points \<open>(1, 0.25)\<close> and \<open>(2, 0.5)\<close> lie on one line through the origin, and the
  first of them is not kept.
\<close>

theorem findhull_not_anchored: "findhull 2 [1/4, 1/2] = Inr [1]"
  by (simp add: findhull_def upto.simps findhull_step_def findhull_pop.simps
      notconvex_test_def rd_def inb_def)

section \<open>Properties of findHalpha\<close>

text \<open>
  Claim C5 at \<open>jumpalpha = [0.5]\<close>, \<open>alpha = 0.1\<close>, \<open>m = 1\<close>. The largest \<open>h\<close> with
  \<open>jumpalpha[h-1] > alpha\<close> is 1, and the one-based original of analyses/hommel\_backup.cpp
  returns it; the zero-based findHalpha never reads \<open>jumpalpha[0]\<close> and returns 0.
\<close>

theorem findHalpha_ignores_first:
  "findHalpha [1/2] (1/10) 1 = Inr 0 \<and> findHalpha_backup [1/2] (1/10) 1 = Inr 1"
  by (simp add: findHalpha_def findHalpha_loop.simps findHalpha_backup_def
      findHalpha_backup_loop.simps c_div_def rd_def inb_def)


section \<open>Disjoint-set forests\<close>

text \<open>
  \<open>path l x r n\<close>: following the parent array \<open>l\<close> from \<open>x\<close> reaches the root \<open>r\<close> in \<open>n\<close>
  steps. \<open>uf_inv l\<close>: every index of \<open>l\<close> reaches a root, which makes \<open>l\<close> a forest and
  the components well defined.
\<close>

inductive path :: "int list \<Rightarrow> int \<Rightarrow> int \<Rightarrow> nat \<Rightarrow> bool" for l :: "int list" where
  path_root: "inb l r \<Longrightarrow> l ! nat r = r \<Longrightarrow> path l r r 0"
| path_step: "inb l x \<Longrightarrow> l ! nat x \<noteq> x \<Longrightarrow> path l (l ! nat x) r n \<Longrightarrow> path l x r (Suc n)"

definition root_of :: "int list \<Rightarrow> int \<Rightarrow> int \<Rightarrow> bool" where
  "root_of l x r \<longleftrightarrow> (\<exists>n. path l x r n)"

definition uf_inv :: "int list \<Rightarrow> bool" where
  "uf_inv l \<longleftrightarrow> (\<forall>x. inb l x \<longrightarrow> (\<exists>r. root_of l x r))"

lemma path_inb: "path l x r n \<Longrightarrow> inb l x \<and> inb l r \<and> l ! nat r = r"
  by (induction rule: path.induct) auto

lemma path_at_root: "l ! nat x = x \<Longrightarrow> path l x r n \<Longrightarrow> r = x \<and> n = 0"
  by (erule path.cases) auto

lemma path_det: "path l x r n \<Longrightarrow> path l x r' n' \<Longrightarrow> r = r' \<and> n = n'"
proof (induction arbitrary: r' n' rule: path.induct)
  case (path_root r)
  then show ?case using path_at_root by blast
next
  case (path_step x r n)
  from path_step.prems path_step.hyps(1,2) obtain k where
    "n' = Suc k" "path l (l ! nat x) r' k"
    by (auto elim: path.cases)
  with path_step.IH show ?case by blast
qed

lemma root_of_det: "root_of l x r \<Longrightarrow> root_of l x r' \<Longrightarrow> r = r'"
  unfolding root_of_def using path_det by blast

lemma root_of_inb: "root_of l x r \<Longrightarrow> inb l x \<and> inb l r \<and> l ! nat r = r"
  unfolding root_of_def using path_inb by blast

lemma root_of_self: "inb l r \<Longrightarrow> l ! nat r = r \<Longrightarrow> root_of l r r"
  unfolding root_of_def using path_root by blast

lemma root_of_root: "root_of l x r \<Longrightarrow> root_of l r r"
  using root_of_inb root_of_self by blast

lemma root_of_at_root: "l ! nat x = x \<Longrightarrow> root_of l x r \<Longrightarrow> r = x"
  unfolding root_of_def using path_at_root by blast

lemma root_of_step: "inb l x \<Longrightarrow> root_of l (l ! nat x) r \<Longrightarrow> root_of l x r"
proof (cases "l ! nat x = x")
  case True
  assume "root_of l (l ! nat x) r"
  with True show ?thesis by simp
next
  case False
  assume "inb l x" "root_of l (l ! nat x) r"
  with False show ?thesis unfolding root_of_def using path_step by blast
qed

lemma root_of_parent:
  assumes "root_of l x r"
  shows "root_of l (l ! nat x) r"
proof -
  from assms obtain n where "path l x r n" unfolding root_of_def by blast
  then show ?thesis
  proof cases
    case path_root
    with assms show ?thesis by simp
  next
    case (path_step k)
    then show ?thesis unfolding root_of_def by blast
  qed
qed

lemma inb_nat_less: "inb l x \<Longrightarrow> nat x < length l"
  by (auto simp: inb_def)

lemma inb_nth_mem: "inb l x \<Longrightarrow> l ! nat x \<in> set l"
  using inb_nat_less by fastforce

lemma nth_upd_int:
  "inb l x \<Longrightarrow> inb l y \<Longrightarrow> l[nat x := v] ! nat y = (if y = x then v else l ! nat y)"
  by (auto simp: inb_def nth_list_update)

lemma inb_upd [simp]: "inb (l[k := v]) y = inb l y"
  by (simp add: inb_def)

text \<open>Path halving keeps every root.\<close>

lemma halve_path:
  assumes x: "path l x r (Suc (Suc n))"
  defines "l1 \<equiv> l[nat x := l ! nat (l ! nat x)]"
  shows "path l y r' m \<Longrightarrow> \<exists>m'\<le>m. path l1 y r' m'"
proof (induction rule: path.induct)
  case (path_root r')
  from x have "l ! nat x \<noteq> x" "inb l x" by (auto elim: path.cases)
  with path_root have "r' \<noteq> x" by auto
  with path_root \<open>inb l x\<close> have "inb l1 r'" "l1 ! nat r' = r'"
    by (auto simp: l1_def nth_upd_int)
  then show ?case using path.path_root by blast
next
  case (path_step y r' m)
  from path_step.IH obtain m' where m': "m' \<le> m" "path l1 (l ! nat y) r' m'" by blast
  have inb1: "inb l1 y" using path_step.hyps(1) by (simp add: l1_def)
  have inbx: "inb l x" using x by (auto elim: path.cases)
  show ?case
  proof (cases "y = x")
    case False
    with path_step.hyps(1) inbx have "l1 ! nat y = l ! nat y"
      by (auto simp: l1_def nth_upd_int)
    with path_step.hyps(2) m' inb1 have "path l1 y r' (Suc m')"
      using path.path_step by metis
    with m'(1) show ?thesis by auto
  next
    case True
    define px where "px = l ! nat x"
    define ppx where "ppx = l ! nat px"
    from x have px: "inb l x" "px \<noteq> x" "path l px r (Suc n)"
      by (auto elim: path.cases simp: px_def)
    from px(3) have ppx: "inb l px" "ppx \<noteq> px" "path l ppx r n"
      by (auto elim: path.cases simp: ppx_def)
    have "ppx \<noteq> x"
    proof
      assume "ppx = x"
      with ppx(3) have "path l x r n" by simp
      from path_det [OF this x] show False by simp
    qed
    have l1x: "l1 ! nat x = ppx" using px(1) by (simp add: l1_def nth_upd_int px_def ppx_def)
    have l1px: "l1 ! nat px = ppx" using px(1,2) ppx(1)
      by (simp add: l1_def nth_upd_int ppx_def px_def)
    from m'(2) True have "path l1 px r' m'" by (simp add: px_def)
    with l1px ppx(2) obtain k where k: "m' = Suc k" "path l1 ppx r' k"
      by (auto elim: path.cases)
    from inb1 True l1x \<open>ppx \<noteq> x\<close> k(2) have "path l1 x r' (Suc k)"
      using path.path_step by metis
    moreover have "Suc k \<le> Suc m" using k(1) m'(1) by simp
    ultimately show ?thesis using True by blast
  qed
qed

lemma Find_loop_root: "inb l x \<Longrightarrow> l ! nat x = x \<Longrightarrow> Find_loop x l = Some (Inr (x, l))"
  by (subst Find_loop.simps) (simp add: rd_def)

lemma Find_loop_step:
  "inb l x \<Longrightarrow> l ! nat x \<noteq> x \<Longrightarrow> inb l (l ! nat x) \<Longrightarrow>
     Find_loop x l = Find_loop (l ! nat (l ! nat x)) (l[nat x := l ! nat (l ! nat x)])"
  by (subst Find_loop.simps) (simp add: rd_def)

lemma Find_loop_path:
  "path l x r n \<Longrightarrow>
     \<exists>l'. Find_loop x l = Some (Inr (r, l')) \<and> length l' = length l \<and>
          (\<forall>y r'. root_of l y r' \<longrightarrow> root_of l' y r')"
proof (induction n arbitrary: l x rule: less_induct)
  case (less n)
  show ?case
  proof (cases n)
    case 0
    with less.prems have "inb l x" "l ! nat x = x" "r = x"
      by (auto elim: path.cases)
    with Find_loop_root [of l x] show ?thesis by simp
  next
    case (Suc k)
    from less.prems Suc have px: "inb l x" "l ! nat x \<noteq> x" "path l (l ! nat x) r k"
      by (auto elim: path.cases)
    from px(3) have inbp: "inb l (l ! nat x)" using path_inb by blast
    note step = Find_loop_step [OF px(1,2) inbp]
    show ?thesis
    proof (cases k)
      case 0
      with px(3) have r: "l ! nat (l ! nat x) = l ! nat x" "r = l ! nat x"
        by (auto elim: path.cases)
      have "l[nat x := l ! nat x] = l" by (rule list_update_id)
      with step r Find_loop_root [OF inbp r(1)] have "Find_loop x l = Some (Inr (r, l))"
        by simp
      then show ?thesis by simp
    next
      case (Suc j)
      define l1 where "l1 = l[nat x := l ! nat (l ! nat x)]"
      from px(3) Suc have ppx: "path l (l ! nat (l ! nat x)) r j"
        by (auto elim: path.cases)
      have x2: "path l x r (Suc (Suc j))" using less.prems \<open>n = Suc k\<close> Suc by simp
      have halve: "\<exists>m'\<le>m. path l1 y r' m'" if "path l y r' m" for y r' m
        using halve_path [OF x2 that] by (simp add: l1_def)
      from halve [OF ppx] obtain j' where j': "j' \<le> j" "path l1 (l ! nat (l ! nat x)) r j'"
        by blast
      then have "j' < n" using \<open>n = Suc k\<close> Suc by simp
      from less.IH [OF this j'(2)] obtain l' where l':
        "Find_loop (l ! nat (l ! nat x)) l1 = Some (Inr (r, l'))" "length l' = length l1"
        "\<forall>y r'. root_of l1 y r' \<longrightarrow> root_of l' y r'" by blast
      have "Find_loop x l = Some (Inr (r, l'))"
        using step l'(1) by (simp add: l1_def)
      moreover have "length l' = length l" using l'(2) by (simp add: l1_def)
      moreover have "\<forall>y r'. root_of l y r' \<longrightarrow> root_of l' y r'"
      proof (intro allI impI)
        fix y r' assume "root_of l y r'"
        then obtain m where "path l y r' m" unfolding root_of_def by blast
        from halve [OF this] have "root_of l1 y r'" unfolding root_of_def by blast
        with l'(3) show "root_of l' y r'" by blast
      qed
      ultimately show ?thesis by blast
    qed
  qed
qed

lemma Find_root_of:
  assumes "root_of l x r"
  shows "\<exists>l'. Find x l = Inr (r, l') \<and> length l' = length l \<and>
          (\<forall>y r'. root_of l y r' \<longrightarrow> root_of l' y r')"
proof -
  from assms obtain n where "path l x r n" unfolding root_of_def by blast
  from Find_loop_path [OF this] obtain l' where l': "Find_loop x l = Some (Inr (r, l'))"
    "length l' = length l" "\<forall>y r'. root_of l y r' \<longrightarrow> root_of l' y r'" by blast
  from l'(1) have "Find x l = Inr (r, l')" by (simp add: Find_def run_def)
  with l'(2,3) show ?thesis by blast
qed

lemma uf_inv_preserved:
  assumes "uf_inv l" and "length l' = length l" and "\<forall>y r'. root_of l y r' \<longrightarrow> root_of l' y r'"
  shows "uf_inv l'" and "inb l y \<Longrightarrow> root_of l' y r' \<longleftrightarrow> root_of l y r'"
proof -
  show "uf_inv l'" using assms unfolding uf_inv_def inb_def by metis
  assume "inb l y"
  with assms(1) obtain r where r: "root_of l y r" unfolding uf_inv_def by blast
  with assms(3) have "root_of l' y r" by blast
  with r show "root_of l' y r' \<longleftrightarrow> root_of l y r'" using root_of_det by blast
qed

lemma Find_uf:
  assumes "uf_inv l" and "inb l x"
  shows "\<exists>r l'. Find x l = Inr (r, l') \<and> root_of l x r \<and> length l' = length l \<and> uf_inv l' \<and>
           (\<forall>y r'. root_of l y r' \<longrightarrow> root_of l' y r') \<and>
           (\<forall>y r'. inb l y \<longrightarrow> (root_of l' y r' \<longleftrightarrow> root_of l y r'))"
proof -
  from assms obtain r where r: "root_of l x r" unfolding uf_inv_def by blast
  from Find_root_of [OF r] obtain l' where l': "Find x l = Inr (r, l')" "length l' = length l"
    "\<forall>y r'. root_of l y r' \<longrightarrow> root_of l' y r'" by blast
  from uf_inv_preserved [OF assms(1) l'(2,3)] r l' show ?thesis by blast
qed

text \<open>Linking the root \<open>a\<close> below the root \<open>b\<close>.\<close>

lemma link_path:
  assumes a: "inb l a" "l ! nat a = a" and b: "inb l b" "l ! nat b = b" and ab: "a \<noteq> b"
  defines "l1 \<equiv> l[nat a := b]"
  shows "path l y r m \<Longrightarrow> \<exists>m'. path l1 y (if r = a then b else r) m'"
proof (induction rule: path.induct)
  case (path_root r)
  have b1: "path l1 b b 0"
    using a b ab by (intro path.path_root) (auto simp: l1_def nth_upd_int)
  show ?case
  proof (cases "r = a")
    case True
    have "inb l1 a" "l1 ! nat a = b" using a by (auto simp: l1_def nth_upd_int)
    with ab b1 have "path l1 a b (Suc 0)" using path.path_step by metis
    with True show ?thesis by auto
  next
    case False
    with path_root a have "inb l1 r" "l1 ! nat r = r"
      by (auto simp: l1_def nth_upd_int)
    with False show ?thesis using path.path_root by auto
  qed
next
  case (path_step y r m)
  from path_step.hyps(2) a have "y \<noteq> a" by auto
  with path_step.hyps(1) a have "inb l1 y" "l1 ! nat y = l ! nat y"
    by (auto simp: l1_def nth_upd_int)
  with path_step.hyps(2) path_step.IH show ?case using path.path_step by metis
qed

lemma link_root_of:
  assumes "inb l a" "l ! nat a = a" "inb l b" "l ! nat b = b" "a \<noteq> b"
  shows "root_of l y r \<Longrightarrow> root_of (l[nat a := b]) y (if r = a then b else r)"
  unfolding root_of_def using link_path [OF assms] by blast

lemma link_uf_inv:
  assumes "uf_inv l" "inb l a" "l ! nat a = a" "inb l b" "l ! nat b = b" "a \<noteq> b"
  shows "uf_inv (l[nat a := b])"
  unfolding uf_inv_def
proof (intro allI impI)
  fix x assume "inb (l[nat a := b]) x"
  then have "inb l x" by simp
  with assms(1) obtain r where "root_of l x r" unfolding uf_inv_def by blast
  from link_root_of [OF assms(2-6) this] show "\<exists>r. root_of (l[nat a := b]) x r" by blast
qed

text \<open>UnionBySize on two distinct components.\<close>

lemma UnionBySize_ok:
  assumes inv: "uf_inv PARENT" and len: "length FORESTROOT = length PARENT"
    and ri: "root_of PARENT i ri" and rj: "root_of PARENT j rj" and ne: "ri \<noteq> rj"
    and bi: "inb SIZE (FORESTROOT ! nat ri)" and bj: "inb SIZE (FORESTROOT ! nat rj)"
  defines "iroot \<equiv> FORESTROOT ! nat ri" and "jroot \<equiv> FORESTROOT ! nat rj"
  defines "rep \<equiv> (if SIZE ! nat iroot < SIZE ! nat jroot then rj else ri)"
  shows "\<exists>P' F'. UnionBySize i j (PARENT, FORESTROOT, SIZE)
             = Inr (P', F', SIZE[nat iroot := SIZE ! nat iroot + SIZE ! nat jroot]) \<and>
           length P' = length PARENT \<and> length F' = length FORESTROOT \<and> uf_inv P' \<and>
           (\<forall>y r. root_of PARENT y r \<longrightarrow> root_of P' y (if r = ri \<or> r = rj then rep else r)) \<and>
           F' ! nat rep = iroot \<and> (\<forall>r. inb PARENT r \<longrightarrow> r \<noteq> rep \<longrightarrow> F' ! nat r = FORESTROOT ! nat r)"
proof -
  from Find_root_of [OF ri] obtain P1 where P1: "Find i PARENT = Inr (ri, P1)"
    "length P1 = length PARENT" "\<forall>y r'. root_of PARENT y r' \<longrightarrow> root_of P1 y r'" by blast
  from P1(3) rj have "root_of P1 j rj" by blast
  from Find_root_of [OF this] obtain P2 where P2: "Find j P1 = Inr (rj, P2)"
    "length P2 = length P1" "\<forall>y r'. root_of P1 y r' \<longrightarrow> root_of P2 y r'" by blast
  have pres: "\<forall>y r'. root_of PARENT y r' \<longrightarrow> root_of P2 y r'" using P1(3) P2(3) by blast
  have len2: "length P2 = length PARENT" using P1(2) P2(2) by simp
  from uf_inv_preserved(1) [OF inv len2 pres] have inv2: "uf_inv P2" .
  from pres ri rj have "root_of P2 ri ri" "root_of P2 rj rj" using root_of_root by blast+
  then have r2: "inb P2 ri" "P2 ! nat ri = ri" "inb P2 rj" "P2 ! nat rj = rj"
    using root_of_inb by blast+
  have inbF: "inb FORESTROOT ri" "inb FORESTROOT rj" using r2 len len2 by (auto simp: inb_def)
  show ?thesis
  proof (cases "SIZE ! nat iroot < SIZE ! nat jroot")
    case True
    define P3 where "P3 = P2[nat ri := rj]"
    define F3 where "F3 = FORESTROOT[nat rj := iroot]"
    have "UnionBySize i j (PARENT, FORESTROOT, SIZE)
            = Inr (P3, F3, SIZE[nat iroot := SIZE ! nat iroot + SIZE ! nat jroot])"
      using P1(1) P2(1) ne r2 inbF bi bj True
      by (simp add: UnionBySize_def wr_def P3_def F3_def iroot_def jroot_def)
    moreover have "uf_inv P3" unfolding P3_def
      using link_uf_inv [OF inv2 r2(1,2) r2(3,4) ne] .
    moreover have "\<forall>y r. root_of PARENT y r \<longrightarrow> root_of P3 y (if r = ri \<or> r = rj then rep else r)"
    proof (intro allI impI)
      fix y r assume "root_of PARENT y r"
      with pres have "root_of P2 y r" by blast
      from link_root_of [OF r2(1,2) r2(3,4) ne this] True
      show "root_of P3 y (if r = ri \<or> r = rj then rep else r)"
        by (auto simp: P3_def rep_def)
    qed
    moreover have "F3 ! nat rep = iroot" using True inbF by (simp add: F3_def rep_def nth_upd_int)
    moreover have "\<forall>r. inb PARENT r \<longrightarrow> r \<noteq> rep \<longrightarrow> F3 ! nat r = FORESTROOT ! nat r"
      using True inbF len by (auto simp: F3_def rep_def nth_upd_int inb_def)
    ultimately show ?thesis by (auto simp: P3_def F3_def len2)
  next
    case False
    define P3 where "P3 = P2[nat rj := ri]"
    have "UnionBySize i j (PARENT, FORESTROOT, SIZE)
            = Inr (P3, FORESTROOT, SIZE[nat iroot := SIZE ! nat iroot + SIZE ! nat jroot])"
      using P1(1) P2(1) ne r2 inbF bi bj False
      by (simp add: UnionBySize_def wr_def P3_def iroot_def jroot_def)
    moreover have "uf_inv P3" unfolding P3_def
      using link_uf_inv [OF inv2 r2(3,4) r2(1,2)] ne by simp
    moreover have "\<forall>y r. root_of PARENT y r \<longrightarrow> root_of P3 y (if r = ri \<or> r = rj then rep else r)"
    proof (intro allI impI)
      fix y r assume "root_of PARENT y r"
      with pres have "root_of P2 y r" by blast
      from link_root_of [OF r2(3,4) r2(1,2) _ this] ne False
      show "root_of P3 y (if r = ri \<or> r = rj then rep else r)"
        by (auto simp: P3_def rep_def)
    qed
    moreover have "FORESTROOT ! nat rep = iroot" using False by (simp add: rep_def iroot_def)
    ultimately show ?thesis by (auto simp: P3_def len2)
  qed
qed

text \<open>The rank-based structure of findDiscoveries.\<close>

definition rank_inv :: "int list \<times> int list \<times> int list \<Rightarrow> nat \<Rightarrow> bool" where
  "rank_inv st n \<longleftrightarrow>
     (case st of (parent, lowest, rank) \<Rightarrow>
        length parent = n \<and> length lowest = n \<and> length rank = n \<and> uf_inv parent \<and>
        (\<forall>x\<in>set lowest. 0 \<le> x \<and> x < int n))"

lemma set_upd_bound:
  "\<forall>x\<in>set l. P x \<Longrightarrow> P v \<Longrightarrow> \<forall>x\<in>set (l[k := v]). P x"
  by (metis insertE set_update_subset_insert subsetD)

lemma Union_ok:
  assumes inv: "rank_inv (parent, lowest, rank) n" and x: "inb parent x" and y: "inb parent y"
  shows "\<exists>st'. Union x y (parent, lowest, rank) = Inr st' \<and> rank_inv st' n"
proof -
  from inv have len: "length parent = n" "length lowest = n" "length rank = n"
    and uf: "uf_inv parent" and low: "\<forall>x\<in>set lowest. 0 \<le> x \<and> x < int n"
    by (auto simp: rank_inv_def)
  from Find_uf [OF uf x] obtain xr P1 where P1: "Find x parent = Inr (xr, P1)"
    "root_of parent x xr" "length P1 = length parent" "uf_inv P1"
    "\<forall>y r'. root_of parent y r' \<longrightarrow> root_of P1 y r'" by blast
  from y P1(3) have "inb P1 y" by (simp add: inb_def)
  from Find_uf [OF P1(4) this] obtain yr P2 where P2: "Find y P1 = Inr (yr, P2)"
    "root_of P1 y yr" "length P2 = length P1" "uf_inv P2"
    "\<forall>y r'. root_of P1 y r' \<longrightarrow> root_of P2 y r'" by blast
  have len2: "length P2 = n" using P1(3) P2(3) len by simp
  from P1(2,5) P2(2,5) have "root_of P2 xr xr" "root_of P2 yr yr"
    using root_of_root by blast+
  then have r2: "inb P2 xr" "P2 ! nat xr = xr" "inb P2 yr" "P2 ! nat yr = yr"
    using root_of_inb by blast+
  then have inbs: "inb rank xr" "inb rank yr" "inb lowest xr" "inb lowest yr"
    using len len2 by (auto simp: inb_def)
  have lows: "0 \<le> min (lowest ! nat xr) (lowest ! nat yr) \<and>
              min (lowest ! nat xr) (lowest ! nat yr) < int n"
  proof -
    have "lowest ! nat xr \<in> set lowest" "lowest ! nat yr \<in> set lowest"
      using inbs(3,4) by (auto simp: inb_def)
    with low show ?thesis by auto
  qed
  have lowb: "\<forall>z\<in>set (lowest[k := min (lowest ! nat xr) (lowest ! nat yr)]). 0 \<le> z \<and> z < int n"
    for k
    using set_upd_bound [where P = "\<lambda>z. 0 \<le> z \<and> z < int n", OF low lows] .
  show ?thesis
  proof (cases "xr = yr")
    case True
    then have "Union x y (parent, lowest, rank) = Inr (P2, lowest, rank)"
      using P1(1) P2(1) by (simp add: Union_def)
    moreover have "rank_inv (P2, lowest, rank) n"
      using len len2 P2(4) low by (simp add: rank_inv_def)
    ultimately show ?thesis by blast
  next
    case False
    from False have ne: "yr \<noteq> xr" by simp
    consider (lt) "rank ! nat xr < rank ! nat yr" | (gt) "rank ! nat xr > rank ! nat yr"
      | (eq) "rank ! nat xr = rank ! nat yr" by linarith
    then show ?thesis
    proof cases
      case lt
      define st' where "st' = (P2[nat xr := yr],
         lowest[nat yr := min (lowest ! nat xr) (lowest ! nat yr)], rank)"
      have "Union x y (parent, lowest, rank) = Inr st'"
        using P1(1) P2(1) False r2 inbs lt by (simp add: Union_def wr_def st'_def)
      moreover have "rank_inv st' n"
        unfolding rank_inv_def st'_def prod.case
        using len len2 link_uf_inv [OF P2(4) r2(1,2) r2(3,4) False] lowb
        by (intro conjI) simp_all
      ultimately show ?thesis by blast
    next
      case gt
      define st' where "st' = (P2[nat yr := xr],
         lowest[nat xr := min (lowest ! nat xr) (lowest ! nat yr)], rank)"
      have "Union x y (parent, lowest, rank) = Inr st'"
        using P1(1) P2(1) False r2 inbs gt by (simp add: Union_def wr_def st'_def)
      moreover have "rank_inv st' n"
        unfolding rank_inv_def st'_def prod.case
        using len len2 link_uf_inv [OF P2(4) r2(3,4) r2(1,2) ne] lowb
        by (intro conjI) simp_all
      ultimately show ?thesis by blast
    next
      case eq
      define st' where "st' = (P2[nat yr := xr],
         lowest[nat xr := min (lowest ! nat xr) (lowest ! nat yr)],
         rank[nat xr := rank ! nat xr + 1])"
      have "Union x y (parent, lowest, rank) = Inr st'"
        using P1(1) P2(1) False r2 inbs eq by (simp add: Union_def wr_def st'_def)
      moreover have "rank_inv st' n"
        unfolding rank_inv_def st'_def prod.case
        using len len2 link_uf_inv [OF P2(4) r2(3,4) r2(1,2) ne] lowb
        by (intro conjI) simp_all
      ultimately show ?thesis by blast
    qed
  qed
qed

section \<open>Properties of findDiscoveries\<close>

text \<open>
  \<open>category_defined p simesfactor alpha\<close>: the category of \<open>p\<close> is one of the early
  returns, or its \<open>double\<close> product is finite, positive and within the range of \<open>int\<close>.
\<close>

definition category_defined :: "real \<Rightarrow> real \<Rightarrow> real \<Rightarrow> bool" where
  "category_defined p simesfactor alpha \<longleftrightarrow>
     p = 0 \<or> simesfactor = 0 \<or>
     (case to_double (simesfactor / alpha) of
        None \<Rightarrow> False
      | Some q \<Rightarrow> (case to_double (q * p) of
                     None \<Rightarrow> False
                   | Some cat \<Rightarrow> 0 < cat \<and> cat \<le> 2 ^ 31 - 1))"

lemma getCategory_nonneg:
  assumes "category_defined p simesfactor alpha" and "0 < alpha"
  shows "\<exists>c. getCategory p simesfactor alpha m = Inr c \<and> 0 \<le> c"
proof (cases "p = 0 \<or> simesfactor = 0")
  case True
  then show ?thesis by (auto simp: getCategory_def)
next
  case False
  with assms(1) obtain q cat where q: "to_double (simesfactor / alpha) = Some q"
    and cat: "to_double (q * p) = Some cat" "0 < cat" "cat \<le> 2 ^ 31 - 1"
    by (auto simp: category_defined_def split: option.splits)
  from cat(2) have lo: "1 \<le> \<lceil>cat\<rceil>" by linarith
  have "cat \<le> of_int (2 ^ 31 - 1)" using cat(3) by simp
  then have hi: "\<lceil>cat\<rceil> \<le> 2 ^ 31 - 1" by (simp only: ceiling_le_iff)
  have "getCategory p simesfactor alpha m = Inr (\<lceil>cat\<rceil> - 1)"
    using False assms(2) q cat(1) lo hi by (simp add: getCategory_def)
  with lo show ?thesis by simp
qed

lemma upto_split_index:
  assumes "[0..k - 1] = pre @ x # suf"
  shows "x = int (length pre)" and "int (length pre) < k"
proof -
  have len: "length [0..k - 1] = length pre + 1 + length suf" unfolding assms by simp
  then have lt: "int (length pre) < k" by (simp split: if_splits)
  have "[0..k - 1] ! length pre = 0 + int (length pre)"
    using lt by (intro nth_upto) simp
  moreover have "(pre @ x # suf) ! length pre = x" by simp
  ultimately show "x = int (length pre)" using assms by simp
  show "int (length pre) < k" by fact
qed

lemma cats_loop:
  assumes idx: "\<forall>v\<in>set idx. 0 \<le> v \<and> v < int (length allp)"
    and cd: "\<forall>v\<in>set idx. category_defined (allp ! nat v) simesfactor alpha" and al: "0 < alpha"
  shows "\<exists>cats. for_loop [0..int (length idx) - 1]
              (\<lambda>i cats. bindE (rd idx i) (\<lambda>v. bindE (rd allp v) (\<lambda>pv.
                 bindE (getCategory pv simesfactor alpha m) (\<lambda>c. Inr (cats @ [c]))))) []
             = Inr cats \<and>
           length cats = length idx \<and> (\<forall>c\<in>set cats. 0 \<le> c)"
proof -
  define P where "P = (\<lambda>(pre :: int list) (cats :: int list).
     length cats = length pre \<and> (\<forall>c\<in>set cats. 0 \<le> c))"
  have "\<exists>cats. for_loop [0..int (length idx) - 1]
              (\<lambda>i cats. bindE (rd idx i) (\<lambda>v. bindE (rd allp v) (\<lambda>pv.
                 bindE (getCategory pv simesfactor alpha m) (\<lambda>c. Inr (cats @ [c]))))) []
             = Inr cats \<and>
           P [0..int (length idx) - 1] cats"
  proof (rule for_loop_rule)
    show "P [] []" by (simp add: P_def)
  next
    fix pre i cats
    assume P: "P pre cats" and sp: "\<exists>suf. [0..int (length idx) - 1] = pre @ i # suf"
    from sp obtain suf where "[0..int (length idx) - 1] = pre @ i # suf" by blast
    from upto_split_index [OF this] have i: "0 \<le> i" "i < int (length idx)" by auto
    then have inb: "inb idx i" by (simp add: inb_def)
    have mem: "idx ! nat i \<in> set idx" using i by simp
    with idx have v: "inb allp (idx ! nat i)" by (auto simp: inb_def)
    from cd mem have "category_defined (allp ! nat (idx ! nat i)) simesfactor alpha" by blast
    from getCategory_nonneg [OF this al, of m]
    obtain c where "getCategory (allp ! nat (idx ! nat i)) simesfactor alpha m = Inr c" "0 \<le> c"
      by blast
    with P inb v
    show "\<exists>s'. bindE (rd idx i) (\<lambda>v. bindE (rd allp v) (\<lambda>pv.
                 bindE (getCategory pv simesfactor alpha m) (\<lambda>c. Inr (cats @ [c])))) = Inr s' \<and>
               P (pre @ [i]) s'"
      by (simp add: P_def)
  qed
  then show ?thesis by (auto simp: P_def)
qed

lemma findConcentration_loop_ok:
  assumes "length p = nat m" and "0 \<le> z"
  shows "\<exists>z'. findConcentration_loop p simesfactor h alpha m z = Inr z' \<and> z \<le> z'"
  using assms(2)
proof (induction "nat (m - 1 - z)" arbitrary: z rule: less_induct)
  case less
  show ?case
  proof (cases "z < m - 1")
    case False
    then show ?thesis by (subst findConcentration_loop.simps) simp
  next
    case True
    with less.prems assms(1) have inb: "inb p z" by (simp add: inb_def)
    show ?thesis
    proof (cases "simesfactor * (p ! nat z) > of_int (z - m + h + 2) * alpha")
      case False
      with True inb show ?thesis by (subst findConcentration_loop.simps) simp
    next
      case gt: True
      have "nat (m - 1 - (z + 1)) < nat (m - 1 - z)" using True by simp
      from less.hyps [OF this] less.prems obtain z' where
        "findConcentration_loop p simesfactor h alpha m (z + 1) = Inr z'" "z + 1 \<le> z'" by auto
      with True inb gt show ?thesis by (subst findConcentration_loop.simps) simp
    qed
  qed
qed

lemma findConcentration_ok:
  assumes "length p = nat m"
  shows "\<exists>z. findConcentration p simesfactor h alpha m = Inr z \<and> m - h - 1 \<le> z"
proof (cases "0 \<le> m - h - 1")
  case True
  from findConcentration_loop_ok [OF assms True] show ?thesis
    using True by (simp add: findConcentration_def Let_def)
next
  case False
  then show ?thesis by (simp add: findConcentration_def Let_def)
qed

lemma maxcatI_loop_ok:
  assumes "\<forall>c\<in>set cats. 0 \<le> c"
  shows "n \<le> length cats \<Longrightarrow> 0 \<le> acc \<Longrightarrow>
           \<exists>r. maxcatI_loop n cats maxcat acc = Inr r \<and> 0 \<le> r"
proof (induction n arbitrary: acc)
  case 0
  then show ?case by simp
next
  case (Suc n)
  then have inb: "inb cats (int n)" by (simp add: inb_def)
  have "cats ! n \<in> set cats" using Suc.prems by simp
  with assms have c: "0 \<le> cats ! n" by blast
  from Suc.IH [of acc] Suc.prems obtain r1 where r1: "maxcatI_loop n cats maxcat acc = Inr r1" "0 \<le> r1"
    by auto
  from Suc.IH [of "cats ! n"] Suc.prems c obtain r2 where
    r2: "maxcatI_loop n cats maxcat (cats ! n) = Inr r2" "0 \<le> r2" by auto
  show ?case using inb c r1 r2 by simp
qed

definition disc_ok :: "nat \<Rightarrow> int list \<Rightarrow> bool" where
  "disc_ok i d \<longleftrightarrow> (\<forall>j<i. d ! j - (if j = 0 then 0 else d ! (j - 1)) \<in> {0, 1})"

lemma disc_ok_upd:
  assumes "disc_ok i d" and "i < length d" and "v - (if i = 0 then 0 else d ! (i - 1)) \<in> {0, 1}"
  shows "disc_ok (Suc i) (d[i := v])"
  unfolding disc_ok_def
proof (intro allI impI)
  fix j assume "j < Suc i"
  show "d[i := v] ! j - (if j = 0 then 0 else d[i := v] ! (j - 1)) \<in> {0, 1}"
  proof (cases "j = i")
    case True
    with assms(2,3) show ?thesis by (cases i) auto
  next
    case False
    with \<open>j < Suc i\<close> have "j < i" by simp
    with assms(1) have "d ! j - (if j = 0 then 0 else d ! (j - 1)) \<in> {0, 1}"
      by (simp add: disc_ok_def)
    moreover have "d[i := v] ! j = d ! j" using \<open>j < i\<close> by simp
    moreover have "j \<noteq> 0 \<Longrightarrow> d[i := v] ! (j - 1) = d ! (j - 1)" using \<open>j < i\<close> by simp
    ultimately show ?thesis by auto
  qed
qed

lemma findDiscoveries_step_ok:
  assumes inv: "rank_inv (parent, lowest, rank) (nat (maxcat + 1))"
    and i: "0 \<le> i" "i < int (length cats)" and len: "length disc = length cats"
    and cats: "\<forall>c\<in>set cats. 0 \<le> c" and ok: "disc_ok (nat i) disc"
  shows "\<exists>parent' lowest' rank' disc'.
           findDiscoveries_step cats maxcat i (parent, lowest, rank, disc)
             = Inr (parent', lowest', rank', disc') \<and>
           rank_inv (parent', lowest', rank') (nat (maxcat + 1)) \<and>
           length disc' = length cats \<and> disc_ok (Suc (nat i)) disc'"
proof -
  define n where "n = nat (maxcat + 1)"
  from inv have lens: "length parent = n" "length lowest = n" "length rank = n"
    and uf: "uf_inv parent" and low: "\<forall>x\<in>set lowest. 0 \<le> x \<and> x < int n"
    by (auto simp: rank_inv_def n_def)
  have inbc: "inb cats i" using i by (simp add: inb_def)
  have "cats ! nat i \<in> set cats" using i by simp
  with cats have c0: "0 \<le> cats ! nat i" by blast
  define prev where "prev = (if i = 0 then 0 else disc ! nat (i - 1))"
  have prev_rd: "(if i = 0 then Inr 0 else rd disc (i - 1)) = Inr prev"
    using i len by (auto simp: prev_def rd_def inb_def)
  have prev_rd1: "(if i = 0 then Inr 1 else bindE (rd disc (i - 1)) (\<lambda>d. Inr (d + 1)))
                    = Inr (prev + 1)"
    using i len by (auto simp: prev_def rd_def inb_def)
  have inbd: "inb disc i" using i len by (simp add: inb_def)
  have prev_eq: "prev = (if nat i = 0 then 0 else disc ! (nat i - 1))"
    using i by (auto simp: prev_def nat_diff_distrib)
  have upd: "length (disc[nat i := v]) = length cats \<and> disc_ok (Suc (nat i)) (disc[nat i := v])"
    if "v = prev \<or> v = prev + 1" for v
  proof -
    have "nat i < length disc" using i len by simp
    moreover have "v - (if nat i = 0 then 0 else disc ! (nat i - 1)) \<in> {0, 1}"
      using that prev_eq by auto
    ultimately show ?thesis using disc_ok_upd [OF ok] len by simp
  qed
  show ?thesis
  proof (cases "cats ! nat i \<le> maxcat")
    case False
    have "findDiscoveries_step cats maxcat i (parent, lowest, rank, disc)
            = Inr (parent, lowest, rank, disc[nat i := prev])"
      using False inbc inbd prev_rd by (simp add: findDiscoveries_step_def wr_def)
    with inv upd [of prev] show ?thesis by simp
  next
    case True
    with c0 lens have inbp: "inb parent (cats ! nat i)" by (simp add: inb_def n_def)
    from Find_uf [OF uf inbp] obtain r P1 where P1: "Find (cats ! nat i) parent = Inr (r, P1)"
      "root_of parent (cats ! nat i) r" "length P1 = length parent" "uf_inv P1" by blast
    from P1(2) have "inb parent r" using root_of_inb by blast
    with lens have inbl: "inb lowest r" by (simp add: inb_def)
    then have "lowest ! nat r \<in> set lowest" by (rule inb_nth_mem)
    with low have lr: "0 \<le> lowest ! nat r" "lowest ! nat r < int n" by auto
    show ?thesis
    proof (cases "lowest ! nat r = 0")
      case z: True
      have "findDiscoveries_step cats maxcat i (parent, lowest, rank, disc)
              = Inr (P1, lowest, rank, disc[nat i := prev + 1])"
        using True inbc inbd prev_rd1 P1(1) inbl z
        by (simp add: findDiscoveries_step_def wr_def)
      moreover have "rank_inv (P1, lowest, rank) (nat (maxcat + 1))"
        using lens P1(3,4) low by (simp add: rank_inv_def n_def)
      ultimately show ?thesis using upd [of "prev + 1"] by simp
    next
      case nz: False
      from inbp P1(3) have "inb P1 (cats ! nat i)" by (simp add: inb_def)
      from Find_uf [OF P1(4) this] obtain r2 P2 where P2: "Find (cats ! nat i) P1 = Inr (r2, P2)"
        "root_of P1 (cats ! nat i) r2" "length P2 = length P1" "uf_inv P2" by blast
      have inv2: "rank_inv (P2, lowest, rank) n"
        using lens P1(3) P2(3,4) low by (simp add: rank_inv_def)
      from P2(2) have "inb P1 r2" using root_of_inb by blast
      then have b2: "inb P2 r2" using P2(3) by (simp add: inb_def)
      have b1: "inb P2 (lowest ! nat r - 1)"
        using lr nz lens P1(3) P2(3) by (simp add: inb_def)
      from Union_ok [OF inv2 b1 b2] obtain st' where st':
        "Union (lowest ! nat r - 1) r2 (P2, lowest, rank) = Inr st'" "rank_inv st' n" by blast
      obtain P3 L3 R3 where st3: "st' = (P3, L3, R3)" by (cases st')
      have "findDiscoveries_step cats maxcat i (parent, lowest, rank, disc)
              = Inr (P3, L3, R3, disc[nat i := prev])"
        using True inbc inbd prev_rd P1(1) inbl nz P2(1) st'(1) st3
        by (simp add: findDiscoveries_step_def wr_def)
      with st'(2) st3 upd [of prev] show ?thesis by (simp add: n_def)
    qed
  qed
qed

lemma disc_ok_mono:
  assumes "disc_ok n d"
  shows "i \<le> j \<Longrightarrow> j < n \<Longrightarrow> d ! i \<le> d ! j"
proof (induction j)
  case 0
  then show ?case by simp
next
  case (Suc j)
  show ?case
  proof (cases "i = Suc j")
    case True
    then show ?thesis by simp
  next
    case False
    with Suc.prems have "i \<le> j" "j < n" by auto
    with Suc.IH have "d ! i \<le> d ! j" by blast
    moreover from assms Suc.prems(2)
    have "d ! Suc j - (if Suc j = 0 then 0 else d ! (Suc j - 1)) \<in> {0, 1}"
      unfolding disc_ok_def by blast
    then have "d ! Suc j - d ! j \<in> {0, 1}" by simp
    ultimately show ?thesis by auto
  qed
qed

lemma uf_inv_identity: "uf_inv [0..c]"
  unfolding uf_inv_def
proof (intro allI impI)
  fix x assume x: "inb [0..c] x"
  then have "0 \<le> x" "x \<le> c" by (auto simp: inb_def split: if_splits)
  then have "[0..c] ! nat x = 0 + int (nat x)" by (intro nth_upto) simp
  with \<open>0 \<le> x\<close> have "[0..c] ! nat x = x" by simp
  with x show "\<exists>r. root_of [0..c] x r" using root_of_self by blast
qed

lemma rank_inv_init:
  assumes "- 1 \<le> maxcat"
  shows "rank_inv ([0..maxcat], [0..maxcat], replicate (nat (maxcat + 1)) 0) (nat (maxcat + 1))"
proof -
  have "length [0..maxcat] = nat (maxcat + 1)" by simp
  moreover have "\<forall>x\<in>set [0..maxcat]. 0 \<le> x \<and> x < int (nat (maxcat + 1))" by auto
  ultimately show ?thesis
    unfolding rank_inv_def prod.case using uf_inv_identity by simp
qed

lemma findDiscoveries_ok:
  assumes k: "k = int (length idx)"
    and idx: "\<forall>v\<in>set idx. 0 \<le> v \<and> v < m"
    and lenp: "length allp = nat m" and al: "0 < alpha"
    and cd: "\<forall>v\<in>set idx. category_defined (allp ! nat v) simesfactor alpha"
  shows "\<exists>disc. findDiscoveries idx allp simesfactor h alpha k m = Inr disc \<and>
           length disc = length idx \<and> disc_ok (length idx) disc"
proof -
  have idx': "\<forall>v\<in>set idx. 0 \<le> v \<and> v < int (length allp)"
    using idx lenp by auto
  from cats_loop [OF idx' cd al, of m] obtain cats where cats:
    "for_loop [0..k - 1]
       (\<lambda>i cats. bindE (rd idx i) (\<lambda>v. bindE (rd allp v) (\<lambda>pv.
          bindE (getCategory pv simesfactor alpha m) (\<lambda>c. Inr (cats @ [c]))))) [] = Inr cats"
    "length cats = length idx" "\<forall>c\<in>set cats. 0 \<le> c"
    unfolding k by blast
  from findConcentration_ok [OF lenp] obtain z where z:
    "findConcentration allp simesfactor h alpha m = Inr z" "m - h - 1 \<le> z" by blast
  from maxcatI_loop_ok [OF cats(3), of "nat k" 0 "min (z - m + h) k"] cats(2) k
  obtain mI where mI: "maxcatI_loop (nat k) cats (min (z - m + h) k) 0 = Inr mI" "0 \<le> mI"
    by auto
  define maxcat where "maxcat = min (min (z - m + h) k) mI"
  have mc: "- 1 \<le> maxcat" using z(2) mI(2) k by (simp add: maxcat_def)
  define n where "n = nat (maxcat + 1)"
  define P where "P = (\<lambda>(pre :: int list) (st :: int list \<times> int list \<times> int list \<times> int list).
     case st of (parent, lowest, rank, disc) \<Rightarrow>
       rank_inv (parent, lowest, rank) n \<and> length disc = length cats \<and> disc_ok (length pre) disc)"
  have "\<exists>st. for_loop [0..k - 1] (findDiscoveries_step cats maxcat)
           ([0..maxcat], [0..maxcat], replicate n 0, replicate (nat k) 0) = Inr st \<and>
         P [0..k - 1] st"
  proof (rule for_loop_rule)
    show "P [] ([0..maxcat], [0..maxcat], replicate n 0, replicate (nat k) 0)"
      using rank_inv_init [OF mc] cats(2) k by (simp add: P_def n_def disc_ok_def)
  next
    fix pre i st
    assume P: "P pre st" and sp: "\<exists>suf. [0..k - 1] = pre @ i # suf"
    from sp obtain suf where "[0..k - 1] = pre @ i # suf" by blast
    from upto_split_index [OF this] have i: "i = int (length pre)" "int (length pre) < k" by auto
    obtain parent lowest rank disc where st: "st = (parent, lowest, rank, disc)" by (cases st)
    from P st have inv: "rank_inv (parent, lowest, rank) (nat (maxcat + 1))"
      and len: "length disc = length cats" and ok: "disc_ok (nat i) disc"
      by (auto simp: P_def n_def i)
    have ib: "0 \<le> i" "i < int (length cats)" using i cats(2) k by auto
    from findDiscoveries_step_ok [OF inv ib len cats(3) ok]
    show "\<exists>s'. findDiscoveries_step cats maxcat i st = Inr s' \<and> P (pre @ [i]) s'"
      unfolding st by (auto simp: P_def n_def i)
  qed
  then obtain st0 where st0:
    "for_loop [0..k - 1] (findDiscoveries_step cats maxcat)
           ([0..maxcat], [0..maxcat], replicate n 0, replicate (nat k) 0) = Inr st0"
    "P [0..k - 1] st0" by blast
  obtain parent lowest rank disc where "st0 = (parent, lowest, rank, disc)" by (cases st0)
  with st0 have st:
    "for_loop [0..k - 1] (findDiscoveries_step cats maxcat)
           ([0..maxcat], [0..maxcat], replicate n 0, replicate (nat k) 0)
       = Inr (parent, lowest, rank, disc)"
    "P [0..k - 1] (parent, lowest, rank, disc)" by simp_all
  have "length [0..k - 1] = length idx" using k by simp
  with st(2) have d: "length disc = length idx" "disc_ok (length idx) disc"
    using cats(2) by (auto simp: P_def)
  have nv1: "new_vector (maxcat + 1) (0::int) = Inr (replicate n 0)"
    using mc by (simp add: new_vector_def n_def)
  have nv2: "new_vector k (0::int) = Inr (replicate (nat k) 0)"
    using k by (simp add: new_vector_def)
  have "findDiscoveries idx allp simesfactor h alpha k m = Inr disc"
    unfolding findDiscoveries_def cats(1) z(1) mI(1) bindE_Inr Let_def
      maxcat_def [symmetric] nv1 nv2 st(1)
    by simp
  with d show ?thesis by blast
qed

text \<open>
  Claim C3, on the inputs where every category is defined. Let \<open>idx\<close> have length \<open>k \<ge> 1\<close>
  and entries in \<open>[0, m)\<close>, let there be \<open>m\<close> p-values and \<open>alpha > 0\<close>, and let the category
  of every \<open>p[idx[j]]\<close> be defined: the p-value or \<open>simesfactor\<close> is zero, or the \<open>double\<close>
  product \<open>(simesfactor / alpha) * p[idx[j]]\<close> is finite, positive and at most \<open>2^31 - 1\<close>.
  Then findDiscoveries returns a sequence of length \<open>k\<close> that starts at 0 or 1, grows by
  0 or 1 at every index, and is non-decreasing. Neither the order of the p-values nor the
  bounds on \<open>h\<close> are needed.
\<close>

theorem findDiscoveries_monotone:
  assumes "1 \<le> k" and "k = int (length idx)" and "\<forall>v\<in>set idx. 0 \<le> v \<and> v < m"
    and "length allp = nat m" and "0 < alpha"
    and "\<forall>v\<in>set idx. category_defined (allp ! nat v) simesfactor alpha"
  shows "\<exists>disc. findDiscoveries idx allp simesfactor h alpha k m = Inr disc \<and>
           length disc = nat k \<and>
           (disc ! 0 = 0 \<or> disc ! 0 = 1) \<and>
           (\<forall>j. 0 < j \<and> j < nat k \<longrightarrow>
                disc ! j - disc ! (j - 1) = 0 \<or> disc ! j - disc ! (j - 1) = 1) \<and>
           (\<forall>i j. i \<le> j \<and> j < nat k \<longrightarrow> disc ! i \<le> disc ! j)"
proof -
  from findDiscoveries_ok [OF assms(2-6)] obtain disc where disc:
    "findDiscoveries idx allp simesfactor h alpha k m = Inr disc" "length disc = length idx"
    "disc_ok (length idx) disc" by blast
  have nk: "nat k = length idx" using assms(2) by simp
  have "0 < length idx" using assms(1,2) by auto
  with disc(3) have "disc ! 0 - (if (0::nat) = 0 then 0 else disc ! (0 - 1)) \<in> {0, 1}"
    unfolding disc_ok_def by blast
  then have "disc ! 0 = 0 \<or> disc ! 0 = 1" by simp
  moreover have "disc ! j - disc ! (j - 1) = 0 \<or> disc ! j - disc ! (j - 1) = 1"
    if "0 < j \<and> j < nat k" for j
  proof -
    from that nk have "j < length idx" by simp
    with disc(3) have "disc ! j - (if j = 0 then 0 else disc ! (j - 1)) \<in> {0, 1}"
      unfolding disc_ok_def by blast
    with that show ?thesis by simp
  qed
  moreover have "disc ! i \<le> disc ! j" if "i \<le> j \<and> j < nat k" for i j
    using disc_ok_mono [OF disc(3)] that nk by simp
  ultimately show ?thesis
  proof (intro exI [of _ disc] conjI)
    show "findDiscoveries idx allp simesfactor h alpha k m = Inr disc" by fact
    show "length disc = nat k" using disc(2) nk by simp
  qed blast+
qed

theorem findDiscoveries_monotone_witness:
  "\<exists>disc. findDiscoveries [0, 1, 2] [1/1024, 1/2, 7/8] 1 1 (1/32) 3 3 = Inr disc \<and>
     length disc = 3 \<and> (disc ! 0 = 0 \<or> disc ! 0 = 1) \<and>
     disc ! 0 \<le> disc ! 1 \<and> disc ! 1 \<le> disc ! 2"
proof -
  have h: "(1::int) \<le> 3" "3 = int (length [0, 1, 2 :: int])"
    "\<forall>v\<in>set [0, 1, 2 :: int]. 0 \<le> v \<and> v < 3"
    "length [1/1024, 1/2, 7/8 :: real] = nat 3" "(0::real) < 1/32"
    by simp_all
  have c: "\<forall>v\<in>set [0, 1, 2 :: int]. category_defined ([1/1024, 1/2, 7/8] ! nat v) 1 (1/32)"
    by code_simp
  from findDiscoveries_monotone [OF h c, of 1]
  obtain disc where d: "findDiscoveries [0, 1, 2] [1/1024, 1/2, 7/8] 1 1 (1/32) 3 3 = Inr disc"
    "length disc = nat 3" "disc ! 0 = 0 \<or> disc ! 0 = 1"
    "\<forall>i j. i \<le> j \<and> j < nat 3 \<longrightarrow> disc ! i \<le> disc ! j"
    by blast
  from d(4) [rule_format, of 0 1] d(4) [rule_format, of 1 2]
  have "disc ! 0 \<le> disc ! 1" "disc ! 1 \<le> disc ! 2" by simp_all
  with d(1-3) show ?thesis by auto
qed

text \<open>
  Claim C3 as stated fails at \<open>idx = [0]\<close>, \<open>p = [1]\<close>, \<open>simesfactor = 1\<close>, \<open>h = 1\<close>,
  \<open>alpha = 2^-40\<close>, \<open>k = m = 1\<close>: the product is \<open>2^40\<close>, which has no \<open>int\<close>, and
  nothing is returned.
\<close>

theorem findDiscoveries_category_overflow:
  "findDiscoveries [0] [1] 1 1 (1 / 2 ^ 40) 1 1 = Inl IntOverflow"
  by code_simp

section \<open>Properties of UnionBySize\<close>

text \<open>
  Claim C10, as the code has it. On a well-formed state, for \<open>i\<close> and \<open>j\<close> in distinct
  components with representatives \<open>ri\<close> and \<open>rj\<close>, \<open>UnionBySize(i, j)\<close> merges the two
  components: every member of either gets the representative \<open>rep\<close>, which is the one of
  the side whose size (stored at the forestroot index) is larger, the side of \<open>i\<close> on a
  tie, and all other components keep theirs. The forestroot of the merged component is
  the forestroot of the side of \<open>i\<close>, whatever the sizes, and the size stored there becomes
  the sum of the two sizes.
\<close>

theorem UnionBySize_merges:
  assumes "uf_inv PARENT" and "length FORESTROOT = length PARENT"
    and "root_of PARENT i ri" and "root_of PARENT j rj" and "ri \<noteq> rj"
    and "inb SIZE (FORESTROOT ! nat ri)" and "inb SIZE (FORESTROOT ! nat rj)"
  shows "\<exists>P' F' S' rep. UnionBySize i j (PARENT, FORESTROOT, SIZE) = Inr (P', F', S') \<and>
           uf_inv P' \<and>
           rep = (if SIZE ! nat (FORESTROOT ! nat ri) < SIZE ! nat (FORESTROOT ! nat rj)
                  then rj else ri) \<and>
           (\<forall>y r. root_of PARENT y r \<longrightarrow> root_of P' y (if r = ri \<or> r = rj then rep else r)) \<and>
           F' ! nat rep = FORESTROOT ! nat ri \<and>
           (\<forall>r. inb PARENT r \<longrightarrow> r \<noteq> rep \<longrightarrow> F' ! nat r = FORESTROOT ! nat r) \<and>
           S' = SIZE[nat (FORESTROOT ! nat ri) :=
                       SIZE ! nat (FORESTROOT ! nat ri) + SIZE ! nat (FORESTROOT ! nat rj)]"
  using UnionBySize_ok [OF assms] by blast

theorem UnionBySize_merges_witness:
  "\<exists>P' F'. UnionBySize 0 1 ([0, 1], [0, 1], [1, 2]) = Inr (P', F', [3, 2]) \<and>
     root_of P' 0 1 \<and> root_of P' 1 1 \<and> F' ! nat 1 = 0"
proof -
  have r0: "root_of [0, 1] 0 0" and r1: "root_of [0, 1] 1 1"
    by (rule root_of_self; simp add: inb_def)+
  have inv: "uf_inv [0, 1]"
    unfolding uf_inv_def
  proof (intro allI impI)
    fix x :: int assume "inb [0, 1 :: int] x"
    then have "x = 0 \<or> x = 1" by (auto simp: inb_def)
    with r0 r1 show "\<exists>r. root_of [0, 1] x r" by blast
  qed
  have h: "length [0, 1 :: int] = length [0, 1 :: int]" "(0::int) \<noteq> 1"
    "inb [1, 2 :: int] ([0, 1] ! nat 0)" "inb [1, 2 :: int] ([0, 1] ! nat 1)"
    by (simp_all add: inb_def)
  from UnionBySize_merges [OF inv h(1) r0 r1 h(2-4)]
  obtain P' F' S' rep where u: "UnionBySize 0 1 ([0, 1], [0, 1], [1, 2]) = Inr (P', F', S')"
    "rep = (if [1, 2 :: int] ! nat ([0, 1] ! nat 0) < [1, 2] ! nat ([0, 1] ! nat 1) then 1 else 0)"
    "\<forall>y r. root_of [0, 1] y r \<longrightarrow> root_of P' y (if r = 0 \<or> r = 1 then rep else r)"
    "F' ! nat rep = [0, 1] ! nat 0"
    "S' = [1, 2][nat ([0, 1] ! nat 0) := [1, 2] ! nat ([0, 1] ! nat 0) + [1, 2] ! nat ([0, 1] ! nat 1)]"
    by blast
  from u(2) have rep: "rep = 1" by simp
  from u(3) [rule_format, OF r0] u(3) [rule_format, OF r1] rep
  have "root_of P' 0 1" "root_of P' 1 1" by simp_all
  moreover from u(4) rep have "F' ! nat 1 = 0" by simp
  moreover from u(5) have "S' = [3, 2]" by simp
  ultimately show ?thesis using u(1) by blast
qed

section \<open>Properties of findClusters\<close>

text \<open>
  \<open>sum_children S cs\<close> is the sum of the sizes of the children \<open>cs\<close>; \<open>heavy_first S cs\<close> says
  that no child is larger than the first one. \<open>comp_inv m A P F S\<close> is the invariant of the
  disjoint-set forest when the nodes of \<open>A\<close> have been visited: an unvisited node is a
  singleton of size 1, and the component of a visited node has its representative and its
  forestroot among the visited nodes.
\<close>

definition sum_children :: "int list \<Rightarrow> int list \<Rightarrow> int" where
  "sum_children S cs = sum_list (map (\<lambda>c. S ! nat c) cs)"

definition heavy_first :: "int list \<Rightarrow> int list \<Rightarrow> bool" where
  "heavy_first S cs \<longleftrightarrow> (\<forall>c\<in>set cs. S ! nat c \<le> S ! nat (hd cs))"

definition comp_inv :: "int \<Rightarrow> int set \<Rightarrow> int list \<Rightarrow> int list \<Rightarrow> int list \<Rightarrow> bool" where
  "comp_inv m A P F S \<longleftrightarrow>
     length P = nat m \<and> length F = nat m \<and> length S = nat m \<and> uf_inv P \<and>
     (\<forall>x\<in>A. 0 \<le> x \<and> x < m) \<and>
     (\<forall>x. 0 \<le> x \<and> x < m \<and> x \<notin> A \<longrightarrow> root_of P x x \<and> F ! nat x = x \<and> S ! nat x = 1) \<and>
     (\<forall>x\<in>A. \<forall>r. root_of P x r \<longrightarrow> r \<in> A \<and> F ! nat r \<in> A)"

lemma inb_iff_range: "length l = nat m \<Longrightarrow> inb l x \<longleftrightarrow> 0 \<le> x \<and> x < m"
  by (auto simp: inb_def)

lemma comp_inv_roots:
  assumes ci: "comp_inv m A P F S" and len: "length P1 = length P"
    and pres: "\<forall>y r. root_of P y r \<longrightarrow> root_of P1 y r"
  shows "comp_inv m A P1 F S"
proof -
  from ci have lens: "length P = nat m" "length F = nat m" "length S = nat m"
    and uf: "uf_inv P" and A: "\<forall>x\<in>A. 0 \<le> x \<and> x < m"
    and fresh: "\<forall>x. 0 \<le> x \<and> x < m \<and> x \<notin> A \<longrightarrow> root_of P x x \<and> F ! nat x = x \<and> S ! nat x = 1"
    and act: "\<forall>x\<in>A. \<forall>r. root_of P x r \<longrightarrow> r \<in> A \<and> F ! nat r \<in> A"
    by (auto simp: comp_inv_def)
  have "uf_inv P1" using uf_inv_preserved(1) [OF uf len pres] .
  moreover have "\<forall>x\<in>A. \<forall>r. root_of P1 x r \<longrightarrow> r \<in> A \<and> F ! nat r \<in> A"
  proof (intro ballI allI impI)
    fix x r assume x: "x \<in> A" and r: "root_of P1 x r"
    from x A lens(1) have "inb P x" by (simp add: inb_iff_range)
    from uf_inv_preserved(2) [OF uf len pres this] r have "root_of P x r" by blast
    with act x show "r \<in> A \<and> F ! nat r \<in> A" by blast
  qed
  ultimately show ?thesis
    unfolding comp_inv_def using lens len A fresh pres by auto
qed

lemma sum_children_cong:
  "\<forall>c\<in>set cs. S' ! nat c = S ! nat c \<Longrightarrow> sum_children S' cs = sum_children S cs"
  unfolding sum_children_def by (induction cs) auto

lemma heavy_first_cong:
  "\<forall>c\<in>set cs. S' ! nat c = S ! nat c \<Longrightarrow> heavy_first S' cs = heavy_first S cs"
  unfolding heavy_first_def by (cases cs) auto

lemma merge_ok:
  assumes ci: "comp_inv m A P F S" and vA: "v \<in> A"
    and rv: "root_of P v rv" "F ! nat rv = v"
    and jr: "root_of P jrep jrep" "jrep \<in> A" and w: "F ! nat jrep \<noteq> v"
  shows "\<exists>P' F'. UnionBySize v jrep (P, F, S)
             = Inr (P', F', S[nat v := S ! nat v + S ! nat (F ! nat jrep)]) \<and>
           comp_inv m A P' F' (S[nat v := S ! nat v + S ! nat (F ! nat jrep)]) \<and>
           (\<exists>rv'. root_of P' v rv' \<and> F' ! nat rv' = v)"
proof -
  define w where "w = F ! nat jrep"
  define S' where "S' = S[nat v := S ! nat v + S ! nat w]"
  from ci have lens: "length P = nat m" "length F = nat m" "length S = nat m"
    and uf: "uf_inv P" and A: "\<forall>x\<in>A. 0 \<le> x \<and> x < m"
    and fresh: "\<forall>x. 0 \<le> x \<and> x < m \<and> x \<notin> A \<longrightarrow> root_of P x x \<and> F ! nat x = x \<and> S ! nat x = 1"
    and act: "\<forall>x\<in>A. \<forall>r. root_of P x r \<longrightarrow> r \<in> A \<and> F ! nat r \<in> A"
    by (auto simp: comp_inv_def)
  from act vA rv(1) have rvA: "rv \<in> A" by blast
  from act jr have wA: "w \<in> A" unfolding w_def by blast
  have ne: "rv \<noteq> jrep" using rv(2) w by auto
  have bi: "inb S (F ! nat rv)" using rv(2) vA A lens(3) by (simp add: inb_iff_range)
  have bj: "inb S (F ! nat jrep)" using wA A lens(3) by (simp add: inb_iff_range w_def)
  define rep where "rep = (if S ! nat (F ! nat rv) < S ! nat (F ! nat jrep) then jrep else rv)"
  from UnionBySize_ok [OF uf _ rv(1) jr(1) ne bi bj] lens
  obtain P' F' where u: "UnionBySize v jrep (P, F, S) = Inr (P', F', S')"
    "length P' = length P" "length F' = length F" "uf_inv P'"
    "\<forall>y r. root_of P y r \<longrightarrow> root_of P' y (if r = rv \<or> r = jrep then rep else r)"
    "F' ! nat rep = v" "\<forall>r. inb P r \<longrightarrow> r \<noteq> rep \<longrightarrow> F' ! nat r = F ! nat r"
    unfolding rep_def S'_def w_def rv(2) by auto
  have repA: "rep \<in> A" "rep = rv \<or> rep = jrep" using rvA jr(2) by (auto simp: rep_def)
  have S'x: "S' ! nat x = S ! nat x" if "0 \<le> x" "x \<noteq> v" for x
    using that vA A by (auto simp: S'_def nth_list_update)
  have "comp_inv m A P' F' S'"
    unfolding comp_inv_def
  proof (intro conjI allI impI ballI)
    show "length P' = nat m" "length F' = nat m" "length S' = nat m"
      using u(2,3) lens by (simp_all add: S'_def)
    show "uf_inv P'" by fact
  next
    fix x assume "x \<in> A"
    with A show "0 \<le> x" "x < m" by auto
  next
    fix x assume x: "0 \<le> x \<and> x < m \<and> x \<notin> A"
    with fresh have fx: "root_of P x x" "F ! nat x = x" "S ! nat x = 1" by auto
    from x rvA jr(2) have xne: "x \<noteq> rv" "x \<noteq> jrep" "x \<noteq> rep" "x \<noteq> v"
      using repA(1) vA by auto
    from u(5) fx(1) xne show "root_of P' x x" by fastforce
    from x lens(1) have "inb P x" by (simp add: inb_iff_range)
    with u(7) xne fx(2) show "F' ! nat x = x" by simp
    from S'x [of x] x xne fx(3) show "S' ! nat x = 1" by simp
  next
    fix x r' assume x: "x \<in> A" and r': "root_of P' x r'"
    from x A lens(1) have "inb P x" by (simp add: inb_iff_range)
    with uf obtain r where r: "root_of P x r" unfolding uf_inv_def by blast
    with act x have rA: "r \<in> A" "F ! nat r \<in> A" by auto
    from u(5) r have "root_of P' x (if r = rv \<or> r = jrep then rep else r)" by blast
    with r' have r'eq: "r' = (if r = rv \<or> r = jrep then rep else r)" using root_of_det by blast
    with rA repA show "r' \<in> A" by auto
    show "F' ! nat r' \<in> A"
    proof (cases "r' = rep")
      case True
      with u(6) vA show ?thesis by simp
    next
      case False
      with r'eq have "r' = r" by (auto split: if_splits)
      moreover from r have "inb P r" using root_of_inb by blast
      ultimately show ?thesis using u(7) False rA(2) by simp
    qed
  qed
  moreover have "\<exists>rv'. root_of P' v rv' \<and> F' ! nat rv' = v"
  proof -
    from u(5) rv(1) have "root_of P' v rep" by fastforce
    with u(6) show ?thesis by blast
  qed
  ultimately show ?thesis using u(1) unfolding S'_def w_def by blast
qed

definition cur_inv :: "int \<Rightarrow> int set \<Rightarrow> int list \<Rightarrow> int list \<Rightarrow> int list \<Rightarrow> int list \<Rightarrow> int list \<Rightarrow> bool" where
  "cur_inv v D P F S S0 CHD \<longleftrightarrow>
     v \<notin> D \<and> (\<exists>rv. root_of P v rv \<and> F ! nat rv = v) \<and>
     S ! nat v = 1 + sum_children S CHD \<and> set CHD \<subseteq> D \<and> heavy_first S CHD \<and>
     (\<forall>x\<in>D. S ! nat x = S0 ! nat x)"

lemma sum_children_append: "sum_children S (cs @ [w]) = sum_children S cs + S ! nat w"
  by (simp add: sum_children_def)

lemma sum_children_Cons: "sum_children S (w # cs) = S ! nat w + sum_children S cs"
  by (simp add: sum_children_def)

lemma heavy_first_push:
  assumes "heavy_first S cs"
  shows "heavy_first S (if cs = [] \<or> S ! nat (hd cs) \<ge> S ! nat w then cs @ [w] else w # cs)"
proof (cases "cs = []")
  case True
  then show ?thesis by (simp add: heavy_first_def)
next
  case False
  then have hd: "hd (cs @ [w]) = hd cs" by simp
  show ?thesis
  proof (cases "S ! nat (hd cs) \<ge> S ! nat w")
    case True
    with assms hd False show ?thesis by (auto simp: heavy_first_def)
  next
    case nb: False
    with assms False show ?thesis by (fastforce simp: heavy_first_def)
  qed
qed

lemma findClusters_nb_ok:
  assumes ci: "comp_inv m (insert v D) P F S" and cu: "cur_inv v D P F S S0 CHD"
    and lenR: "length RANK = nat m" and u: "0 \<le> u - off" "u - off < m"
    and mem: "RANK ! nat (u - off) < i + 1 \<longrightarrow> u - off \<in> insert v D"
  shows "\<exists>P' F' S' CHD'. findClusters_nb off RANK i v u (P, F, S, CHD) = Inr (P', F', S', CHD') \<and>
           comp_inv m (insert v D) P' F' S' \<and> cur_inv v D P' F' S' S0 CHD'"
proof (cases "RANK ! nat (u - off) < i + 1")
  case False
  have "inb RANK (u - off)" using u lenR by (simp add: inb_iff_range)
  with False have "findClusters_nb off RANK i v u (P, F, S, CHD) = Inr (P, F, S, CHD)"
    by (simp add: findClusters_nb_def)
  with ci cu show ?thesis by simp
next
  case True
  define A where "A = insert v D"
  define u0 where "u0 = u - off"
  have rdR: "rd RANK (u - off) = Inr (RANK ! nat (u - off))"
    using u lenR by (simp add: inb_iff_range)
  from True mem have u0A: "u0 \<in> A" by (simp add: A_def u0_def)
  from ci have lens: "length P = nat m" "length F = nat m" "length S = nat m"
    and uf: "uf_inv P" and A: "\<forall>x\<in>A. 0 \<le> x \<and> x < m"
    and act: "\<forall>x\<in>A. \<forall>r. root_of P x r \<longrightarrow> r \<in> A \<and> F ! nat r \<in> A"
    by (auto simp: comp_inv_def A_def)
  from cu have vD: "v \<notin> D" and sz: "S ! nat v = 1 + sum_children S CHD"
    and sub: "set CHD \<subseteq> D" and hf: "heavy_first S CHD"
    and same: "\<forall>x\<in>D. S ! nat x = S0 ! nat x"
    by (auto simp: cur_inv_def)
  from cu obtain rv where rv: "root_of P v rv" "F ! nat rv = v"
    by (auto simp: cur_inv_def)
  have inbu: "inb P u0" using u lens(1) by (simp add: inb_iff_range u0_def)
  from Find_uf [OF uf inbu] obtain jrep P1 where P1: "Find u0 P = Inr (jrep, P1)"
    "root_of P u0 jrep" "length P1 = length P" "uf_inv P1"
    "\<forall>y r'. root_of P y r' \<longrightarrow> root_of P1 y r'" by blast
  from comp_inv_roots [OF ci P1(3,5)] have ci1: "comp_inv m A P1 F S" by (simp add: A_def)
  from act u0A P1(2) have jA: "jrep \<in> A" "F ! nat jrep \<in> A" by auto
  define w where "w = F ! nat jrep"
  have rdF: "rd F jrep = Inr w" using jA(1) A lens(2) by (simp add: inb_iff_range w_def)
  from P1(5) rv(1) have rv1: "root_of P1 v rv" by blast
  from P1(2,5) have jr1: "root_of P1 jrep jrep" using root_of_root by blast
  show ?thesis
  proof (cases "v = w")
    case vw: True
    have "findClusters_nb off RANK i v u (P, F, S, CHD) = Inr (P1, F, S, CHD)"
      using True rdR P1(1) rdF vw by (simp add: findClusters_nb_def u0_def)
    moreover have "cur_inv v D P1 F S S0 CHD"
      using cu rv1 rv(2) unfolding cur_inv_def by blast
    ultimately show ?thesis using ci1 by (simp add: A_def)
  next
    case False
    then have wv: "F ! nat jrep \<noteq> v" by (simp add: w_def)
    define S' where "S' = S[nat v := S ! nat v + S ! nat w]"
    from merge_ok [OF ci1 _ rv1 rv(2) jr1 jA(1) wv]
    obtain P' F' where m: "UnionBySize v jrep (P1, F, S) = Inr (P', F', S')"
      "comp_inv m A P' F' S'" "\<exists>rv'. root_of P' v rv' \<and> F' ! nat rv' = v"
      unfolding S'_def w_def A_def by auto
    from jA(2) False have wD: "w \<in> D" by (auto simp: A_def w_def)
    have v0: "0 \<le> v" "v < m" using A by (auto simp: A_def)
    have Deq: "S' ! nat x = S ! nat x" if "x \<in> D" for x
    proof -
      from that A have "0 \<le> x" by (auto simp: A_def)
      moreover from that vD have "x \<noteq> v" by auto
      ultimately show ?thesis using v0 by (auto simp: S'_def nth_list_update)
    qed
    have S'v: "S' ! nat v = S ! nat v + S ! nat w"
      using v0 lens(3) by (simp add: S'_def)
    have inbS: "inb S' x" if "x \<in> D" for x
      using that A lens(3) by (simp add: inb_iff_range S'_def A_def)
    define toback where "toback \<longleftrightarrow> CHD = [] \<or> S' ! nat (hd CHD) \<ge> S' ! nat w"
    have rdback: "(if CHD = [] then Inr True
                 else bindE (rd S' (hd CHD)) (\<lambda>sf. bindE (rd S' w) (\<lambda>sw. Inr (sf \<ge> sw))))
                 = Inr toback"
    proof (cases "CHD = []")
      case True
      then show ?thesis by (simp add: toback_def)
    next
      case False
      then have "hd CHD \<in> D" using sub by auto
      with inbS wD False show ?thesis by (simp add: toback_def)
    qed
    define CHD' where "CHD' = (if toback then CHD @ [w] else w # CHD)"
    have res: "findClusters_nb off RANK i v u (P, F, S, CHD) = Inr (P', F', S', CHD')"
      using True rdR P1(1) rdF False m(1) rdback
      by (simp add: findClusters_nb_def u0_def CHD'_def)
    have agree: "\<forall>c\<in>set CHD. S' ! nat c = S ! nat c" using Deq sub by auto
    have agree': "\<forall>c\<in>set CHD'. S' ! nat c = S ! nat c"
      using Deq sub wD by (auto simp: CHD'_def)
    have backS: "toback \<longleftrightarrow> CHD = [] \<or> S ! nat (hd CHD) \<ge> S ! nat w"
    proof (cases "CHD = []")
      case True
      then show ?thesis by (simp add: toback_def)
    next
      case False
      then have "hd CHD \<in> D" using sub by auto
      with Deq wD False show ?thesis by (simp add: toback_def)
    qed
    have "heavy_first S CHD'"
      using heavy_first_push [OF hf, of w] unfolding CHD'_def backS by simp
    then have hf': "heavy_first S' CHD'" using heavy_first_cong [OF agree'] by simp
    have "sum_children S' CHD' = sum_children S CHD'"
      using sum_children_cong [OF agree'] .
    also have "\<dots> = sum_children S CHD + S ! nat w"
      by (simp add: CHD'_def sum_children_append sum_children_Cons)
    finally have sz': "S' ! nat v = 1 + sum_children S' CHD'" using S'v sz by simp
    have "cur_inv v D P' F' S' S0 CHD'"
      unfolding cur_inv_def
      using vD m(3) sz' sub wD hf' same Deq by (auto simp: CHD'_def)
    with res m(2) show ?thesis by (auto simp: A_def)
  qed
qed

definition child_inv :: "int \<Rightarrow> int set \<Rightarrow> int list \<Rightarrow> int list list \<Rightarrow> bool" where
  "child_inv m D S CHILD \<longleftrightarrow> length CHILD = nat m \<and>
     (\<forall>x. 0 \<le> x \<and> x < m \<longrightarrow>
        (x \<notin> D \<longrightarrow> CHILD ! nat x = []) \<and>
        S ! nat x = 1 + sum_children S (CHILD ! nat x) \<and>
        set (CHILD ! nat x) \<subseteq> D \<and> heavy_first S (CHILD ! nat x))"

definition valid_off :: "int \<Rightarrow> int \<Rightarrow> int list list \<Rightarrow> int list \<Rightarrow> int list \<Rightarrow> bool" where
  "valid_off off m ADJ ORD RANK \<longleftrightarrow>
     0 \<le> m \<and> length ADJ = nat m \<and> length ORD = nat m \<and> length RANK = nat m \<and>
     (\<forall>k. 0 \<le> k \<and> k < m \<longrightarrow> off \<le> ORD ! nat k \<and> ORD ! nat k < m + off \<and>
            RANK ! nat (ORD ! nat k - off) = k + off) \<and>
     (\<forall>x. 0 \<le> x \<and> x < m \<longrightarrow> off \<le> RANK ! nat x \<and> RANK ! nat x < m + off \<and>
            ORD ! nat (RANK ! nat x - off) = x + off) \<and>
     (\<forall>x. 0 \<le> x \<and> x < m \<longrightarrow> (\<forall>u\<in>set (ADJ ! nat x). off \<le> u \<and> u < m + off))"

definition done_set :: "int \<Rightarrow> int list \<Rightarrow> int \<Rightarrow> int set" where
  "done_set off ORD i = (\<lambda>k. ORD ! nat k - off) ` {0..<i}"

lemma findClusters_inner:
  assumes lenR: "length RANK = nat m"
  shows "comp_inv m (insert v D) P F S \<Longrightarrow> cur_inv v D P F S S0 CHD \<Longrightarrow>
     \<forall>u\<in>set IDS. 0 \<le> u - off \<and> u - off < m \<and> (RANK ! nat (u - off) < i + 1 \<longrightarrow> u - off \<in> insert v D) \<Longrightarrow>
     \<exists>P' F' S' CHD'. for_loop IDS (findClusters_nb off RANK i v) (P, F, S, CHD) = Inr (P', F', S', CHD') \<and>
           comp_inv m (insert v D) P' F' S' \<and> cur_inv v D P' F' S' S0 CHD'"
proof (induction IDS arbitrary: P F S CHD)
  case Nil
  then show ?case by simp
next
  case (Cons u IDS)
  from Cons.prems(3) have u: "0 \<le> u - off" "u - off < m"
    "RANK ! nat (u - off) < i + 1 \<longrightarrow> u - off \<in> insert v D" by auto
  from findClusters_nb_ok [OF Cons.prems(1,2) lenR u]
  obtain P1 F1 S1 CHD1 where s: "findClusters_nb off RANK i v u (P, F, S, CHD) = Inr (P1, F1, S1, CHD1)"
    "comp_inv m (insert v D) P1 F1 S1" "cur_inv v D P1 F1 S1 S0 CHD1" by blast
  from Cons.prems(3) have rest: "\<forall>u\<in>set IDS. 0 \<le> u - off \<and> u - off < m \<and>
     (RANK ! nat (u - off) < i + 1 \<longrightarrow> u - off \<in> insert v D)" by simp
  from Cons.IH [OF s(2,3) rest] show ?case using s(1) by simp
qed

lemma done_set_Suc: "0 \<le> i \<Longrightarrow> done_set off ORD (i + 1) = insert (ORD ! nat i - off) (done_set off ORD i)"
proof -
  assume "0 \<le> i"
  then have "{0..<i + 1} = insert i {0..<i}" by auto
  then show ?thesis by (simp add: done_set_def)
qed

lemma done_set_range:
  assumes "valid_off off m ADJ ORD RANK" "i \<le> m" "x \<in> done_set off ORD i"
  shows "0 \<le> x \<and> x < m"
proof -
  from assms(3) obtain k where k: "0 \<le> k" "k < i" "x = ORD ! nat k - off"
    by (auto simp: done_set_def)
  with assms(2) have "k < m" by simp
  with assms(1) k(1) have "off \<le> ORD ! nat k \<and> ORD ! nat k < m + off"
    unfolding valid_off_def by blast
  with k(3) show ?thesis by simp
qed

lemma done_set_fresh:
  assumes val: "valid_off off m ADJ ORD RANK" and i: "0 \<le> i" "i < m"
  shows "ORD ! nat i - off \<notin> done_set off ORD i"
proof
  assume "ORD ! nat i - off \<in> done_set off ORD i"
  then obtain k where k: "0 \<le> k" "k < i" "ORD ! nat i - off = ORD ! nat k - off"
    by (auto simp: done_set_def)
  from val i have "RANK ! nat (ORD ! nat i - off) = i + off" unfolding valid_off_def by blast
  moreover from val k(1,2) i(2) have "RANK ! nat (ORD ! nat k - off) = k + off"
    unfolding valid_off_def by simp
  ultimately show False using k(2,3) by simp
qed

lemma done_set_rank:
  assumes val: "valid_off off m ADJ ORD RANK" and i: "0 \<le> i" "i < m"
    and x: "0 \<le> x" "x < m" and r: "RANK ! nat x < i + 1" and off: "0 \<le> off"
  shows "x \<in> done_set off ORD (i + 1)"
proof -
  define k where "k = RANK ! nat x - off"
  from val x have rk: "off \<le> RANK ! nat x" "ORD ! nat k = x + off"
    unfolding valid_off_def k_def by blast+
  then have "0 \<le> k" "k < i + 1" using r off by (auto simp: k_def)
  moreover have "x = ORD ! nat k - off" using rk(2) by simp
  ultimately show ?thesis unfolding done_set_def by auto
qed

lemma comp_inv_insert:
  assumes ci: "comp_inv m D P F S" and v: "0 \<le> v" "v < m" "v \<notin> D"
  shows "comp_inv m (insert v D) P F S"
proof -
  from ci v have vr: "root_of P v v" "F ! nat v = v" unfolding comp_inv_def by blast+
  have "\<forall>x\<in>insert v D. \<forall>r. root_of P x r \<longrightarrow> r \<in> insert v D \<and> F ! nat r \<in> insert v D"
  proof (intro ballI allI impI)
    fix x r assume x: "x \<in> insert v D" and r: "root_of P x r"
    show "r \<in> insert v D \<and> F ! nat r \<in> insert v D"
    proof (cases "x = v")
      case True
      with r vr(1) have "r = v" using root_of_det by blast
      with vr(2) show ?thesis by simp
    next
      case False
      with x have "x \<in> D" by simp
      with ci r show ?thesis unfolding comp_inv_def by blast
    qed
  qed
  moreover from ci v have "\<forall>x\<in>insert v D. 0 \<le> x \<and> x < m" unfolding comp_inv_def by auto
  moreover from ci have "\<forall>x. 0 \<le> x \<and> x < m \<and> x \<notin> insert v D \<longrightarrow>
      root_of P x x \<and> F ! nat x = x \<and> S ! nat x = 1" unfolding comp_inv_def by auto
  ultimately show ?thesis using ci unfolding comp_inv_def by blast
qed

lemma findClusters_node_ok:
  assumes val: "valid_off off m ADJ ORD RANK" and off: "0 \<le> off" and i: "0 \<le> i" "i < m"
    and ci: "comp_inv m (done_set off ORD i) P F S"
    and ch: "child_inv m (done_set off ORD i) S CHILD"
  shows "\<exists>P' F' S' CHILD'. findClusters_node off ADJ ORD RANK i (P, F, S, CHILD) = Inr (P', F', S', CHILD') \<and>
           comp_inv m (done_set off ORD (i + 1)) P' F' S' \<and>
           child_inv m (done_set off ORD (i + 1)) S' CHILD'"
proof -
  define D where "D = done_set off ORD i"
  define v where "v = ORD ! nat i - off"
  from val have lens: "length ADJ = nat m" "length ORD = nat m" "length RANK = nat m"
    unfolding valid_off_def by blast+
  from val i have ordi: "off \<le> ORD ! nat i" "ORD ! nat i < m + off"
    unfolding valid_off_def by blast+
  then have v: "0 \<le> v" "v < m" by (simp_all add: v_def)
  have vD: "v \<notin> D" using done_set_fresh [OF val i] by (simp add: v_def D_def)
  have D1: "done_set off ORD (i + 1) = insert v D"
    using done_set_Suc [OF i(1)] by (simp add: v_def D_def)
  have rdO: "rd ORD i = Inr (ORD ! nat i)" using i lens(2) by (simp add: inb_iff_range)
  have rdA: "rd ADJ v = Inr (ADJ ! nat v)" using v lens(1) by (simp add: inb_iff_range)
  from comp_inv_insert [OF ci [folded D_def] v vD] have ci1: "comp_inv m (insert v D) P F S" .
  from ci [folded D_def] v vD have vr: "root_of P v v" "F ! nat v = v" "S ! nat v = 1"
    unfolding comp_inv_def by blast+
  have cu: "cur_inv v D P F S S []"
    unfolding cur_inv_def using vD vr by (auto simp: sum_children_def heavy_first_def)
  have nb: "\<forall>u\<in>set (ADJ ! nat v). 0 \<le> u - off \<and> u - off < m \<and>
       (RANK ! nat (u - off) < i + 1 \<longrightarrow> u - off \<in> insert v D)"
  proof
    fix u assume "u \<in> set (ADJ ! nat v)"
    with val v have "off \<le> u \<and> u < m + off" unfolding valid_off_def by blast
    then have u: "0 \<le> u - off" "u - off < m" by simp_all
    show "0 \<le> u - off \<and> u - off < m \<and> (RANK ! nat (u - off) < i + 1 \<longrightarrow> u - off \<in> insert v D)"
      using u done_set_rank [OF val i u _ off] D1 by auto
  qed
  from findClusters_inner [OF lens(3) ci1 cu nb]
  obtain P' F' S' CHD where inner:
    "for_loop (ADJ ! nat v) (findClusters_nb off RANK i v) (P, F, S, []) = Inr (P', F', S', CHD)"
    "comp_inv m (insert v D) P' F' S'" "cur_inv v D P' F' S' S CHD" by blast
  from ch have lenC: "length CHILD = nat m" unfolding child_inv_def by simp
  have wrC: "wr CHILD v CHD = Inr (CHILD[nat v := CHD])"
    using v lenC by (simp add: wr_def inb_iff_range)
  have res: "findClusters_node off ADJ ORD RANK i (P, F, S, CHILD) = Inr (P', F', S', CHILD[nat v := CHD])"
    using rdO rdA inner(1) wrC by (simp add: findClusters_node_def v_def)
  from inner(3) have cuD: "S' ! nat v = 1 + sum_children S' CHD" "set CHD \<subseteq> D"
    "heavy_first S' CHD" "\<forall>x\<in>D. S' ! nat x = S ! nat x"
    unfolding cur_inv_def by blast+
  have "child_inv m (insert v D) S' (CHILD[nat v := CHD])"
    unfolding child_inv_def
  proof (intro conjI allI impI)
    show "length (CHILD[nat v := CHD]) = nat m" using lenC by simp
  next
    fix x assume x: "0 \<le> x \<and> x < m"
    { assume "x \<notin> insert v D"
      then have "x \<noteq> v" "x \<notin> D" by auto
      with x v ch show "CHILD[nat v := CHD] ! nat x = []"
        unfolding child_inv_def D_def by (auto simp: nth_list_update) }
    from ch x have chx: "S ! nat x = 1 + sum_children S (CHILD ! nat x)"
      "set (CHILD ! nat x) \<subseteq> D" "heavy_first S (CHILD ! nat x)"
      "x \<notin> D \<longrightarrow> CHILD ! nat x = []"
      unfolding child_inv_def D_def by blast+
    have agree: "\<forall>c\<in>set (CHILD ! nat x). S' ! nat c = S ! nat c"
      using chx(2) cuD(4) by auto
    have cases: "x = v \<or> (x \<noteq> v \<and> x \<in> D) \<or> (x \<noteq> v \<and> x \<notin> D)" by blast
    have nth: "x \<noteq> v \<Longrightarrow> CHILD[nat v := CHD] ! nat x = CHILD ! nat x"
      using x v by (auto simp: nth_list_update)
    have nthv: "CHILD[nat v := CHD] ! nat v = CHD" using v lenC by simp
    have Sx: "x \<noteq> v \<Longrightarrow> S' ! nat x = S ! nat x"
    proof -
      assume xv: "x \<noteq> v"
      show ?thesis
      proof (cases "x \<in> D")
        case True
        with cuD(4) show ?thesis by blast
      next
        case False
        with xv x inner(2) have "S' ! nat x = 1" unfolding comp_inv_def by auto
        moreover from False x ci have "S ! nat x = 1" unfolding comp_inv_def D_def by auto
        ultimately show ?thesis by simp
      qed
    qed
    show "S' ! nat x = 1 + sum_children S' (CHILD[nat v := CHD] ! nat x)"
    proof (cases "x = v")
      case True
      with cuD(1) nthv show ?thesis by simp
    next
      case False
      with nth Sx chx(1) sum_children_cong [OF agree] show ?thesis by simp
    qed
    show "set (CHILD[nat v := CHD] ! nat x) \<subseteq> insert v D"
    proof (cases "x = v")
      case True
      with cuD(2) nthv show ?thesis by auto
    next
      case False
      with nth chx(2) show ?thesis by auto
    qed
    show "heavy_first S' (CHILD[nat v := CHD] ! nat x)"
    proof (cases "x = v")
      case True
      with cuD(3) nthv show ?thesis by simp
    next
      case False
      with nth chx(3) heavy_first_cong [OF agree] show ?thesis by simp
    qed
  qed
  with res inner(2) D1 show ?thesis by simp
qed

definition valid_input :: "int \<Rightarrow> int list list \<Rightarrow> int list \<Rightarrow> int list \<Rightarrow> bool" where
  "valid_input m ADJ ORD RANK \<longleftrightarrow>
     0 \<le> m \<and> length ADJ = nat m \<and> length ORD = nat m \<and> length RANK = nat m \<and>
     (\<forall>k\<in>set [0..m - 1]. 0 \<le> ORD ! nat k \<and> ORD ! nat k < m \<and> RANK ! nat (ORD ! nat k) = k) \<and>
     (\<forall>x\<in>set [0..m - 1]. 0 \<le> RANK ! nat x \<and> RANK ! nat x < m \<and> ORD ! nat (RANK ! nat x) = x) \<and>
     (\<forall>x\<in>set [0..m - 1]. \<forall>u\<in>set (ADJ ! nat x).
        0 \<le> u \<and> u < m \<and> u \<noteq> x \<and> x \<in> set (ADJ ! nat u))"

definition forest_ok :: "int \<Rightarrow> int list \<Rightarrow> int list list \<Rightarrow> bool" where
  "forest_ok m SIZE CHILD \<longleftrightarrow>
     length SIZE = nat m \<and> length CHILD = nat m \<and>
     (\<forall>v\<in>set [0..m - 1].
        (\<forall>c\<in>set (CHILD ! nat v). 0 \<le> c \<and> c < m) \<and>
        SIZE ! nat v = 1 + sum_list (map (\<lambda>c. SIZE ! nat c) (CHILD ! nat v)) \<and>
        (\<forall>j\<in>{1..<length (CHILD ! nat v)}.
           SIZE ! nat (CHILD ! nat v ! 0) \<ge> SIZE ! nat (CHILD ! nat v ! j)))"

lemma comp_inv_init:
  assumes "0 \<le> m"
  shows "comp_inv m {} [0..m - 1] [0..m - 1] (replicate (nat m) 1)"
proof -
  have nth: "[0..m - 1] ! nat x = x" if "0 \<le> x" "x < m" for x
  proof -
    have "[0..m - 1] ! nat x = 0 + int (nat x)" using that by (intro nth_upto) simp
    with that show ?thesis by simp
  qed
  have len: "length [0..m - 1] = nat m" using assms by simp
  have "root_of [0..m - 1] x x" if "0 \<le> x" "x < m" for x
    using that nth len by (intro root_of_self) (simp_all add: inb_def)
  with nth len show ?thesis
    unfolding comp_inv_def using uf_inv_identity [of "m - 1"] by simp
qed

lemma child_inv_init: "child_inv m {} (replicate (nat m) 1) (replicate (nat m) [])"
  unfolding child_inv_def by (simp add: sum_children_def heavy_first_def)

lemma findClusters_outer:
  assumes val: "valid_off off m ADJ ORD RANK" and off: "0 \<le> off"
  shows "\<exists>P F S CHILD. for_loop [0..m - 1] (findClusters_node off ADJ ORD RANK)
            ([0..m - 1], [0..m - 1], replicate (nat m) 1, replicate (nat m) []) = Inr (P, F, S, CHILD) \<and>
           comp_inv m (done_set off ORD m) P F S \<and> child_inv m (done_set off ORD m) S CHILD"
proof -
  from val have m: "0 \<le> m" unfolding valid_off_def by simp
  define Q where "Q = (\<lambda>(pre :: int list) (st :: int list \<times> int list \<times> int list \<times> int list list).
     case st of (P, F, S, CHILD) \<Rightarrow>
       comp_inv m (done_set off ORD (int (length pre))) P F S \<and>
       child_inv m (done_set off ORD (int (length pre))) S CHILD)"
  have "\<exists>st. for_loop [0..m - 1] (findClusters_node off ADJ ORD RANK)
            ([0..m - 1], [0..m - 1], replicate (nat m) 1, replicate (nat m) []) = Inr st \<and>
           Q [0..m - 1] st"
  proof (rule for_loop_rule)
    show "Q [] ([0..m - 1], [0..m - 1], replicate (nat m) 1, replicate (nat m) [])"
      using comp_inv_init [OF m] child_inv_init by (simp add: Q_def done_set_def)
  next
    fix pre i st
    assume Q: "Q pre st" and sp: "\<exists>suf. [0..m - 1] = pre @ i # suf"
    from sp obtain suf where "[0..m - 1] = pre @ i # suf" by blast
    from upto_split_index [OF this] have i: "i = int (length pre)" "int (length pre) < m" by auto
    obtain P F S CHILD where st: "st = (P, F, S, CHILD)" by (cases st) auto
    from Q st i have inv: "comp_inv m (done_set off ORD i) P F S"
      "child_inv m (done_set off ORD i) S CHILD" by (simp_all add: Q_def)
    have i0: "0 \<le> i" "i < m" using i by simp_all
    from findClusters_node_ok [OF val off i0 inv]
    obtain P' F' S' CHILD' where
      "findClusters_node off ADJ ORD RANK i (P, F, S, CHILD) = Inr (P', F', S', CHILD')"
      "comp_inv m (done_set off ORD (i + 1)) P' F' S'"
      "child_inv m (done_set off ORD (i + 1)) S' CHILD'" by blast
    moreover have "int (length (pre @ [i])) = i + 1" using i by simp
    ultimately show "\<exists>s'. findClusters_node off ADJ ORD RANK i st = Inr s' \<and> Q (pre @ [i]) s'"
      unfolding Q_def st by (simp add: add.commute)
  qed
  then obtain st where st: "for_loop [0..m - 1] (findClusters_node off ADJ ORD RANK)
            ([0..m - 1], [0..m - 1], replicate (nat m) 1, replicate (nat m) []) = Inr st"
    "Q [0..m - 1] st" by blast
  obtain P F S CHILD where "st = (P, F, S, CHILD)" by (cases st) auto
  moreover have "int (length [0..m - 1]) = m" using m by simp
  ultimately show ?thesis using st unfolding Q_def by auto
qed

lemma roots_loop:
  "\<forall>i\<in>set xs. inb PARENT i \<and> inb FORESTROOT i \<Longrightarrow>
   \<exists>R. for_loop xs (\<lambda>i ROOT. bindE (rd PARENT i) (\<lambda>par_i.
          if par_i = i then bindE (rd FORESTROOT i) (\<lambda>f. Inr (ROOT @ [f])) else Inr ROOT)) R0 = Inr R"
  by (induction xs arbitrary: R0) auto

lemma findClusters_off_ok:
  assumes val: "valid_off off m ADJ ORD RANK" and off: "0 \<le> off"
  shows "\<exists>SIZE ROOT CHILD. findClusters_off off m ADJ ORD RANK = Inr (SIZE # ROOT # CHILD) \<and>
           forest_ok m SIZE CHILD"
proof -
  from val have m: "0 \<le> m" unfolding valid_off_def by simp
  from findClusters_outer [OF val off] obtain P F S CHILD where
    loop: "for_loop [0..m - 1] (findClusters_node off ADJ ORD RANK)
            ([0..m - 1], [0..m - 1], replicate (nat m) 1, replicate (nat m) []) = Inr (P, F, S, CHILD)"
    and ci: "comp_inv m (done_set off ORD m) P F S"
    and ch: "child_inv m (done_set off ORD m) S CHILD" by blast
  from ci have lens: "length P = nat m" "length F = nat m" "length S = nat m"
    unfolding comp_inv_def by blast+
  have "\<forall>i\<in>set [0..m - 1]. inb P i \<and> inb F i" using lens by (simp add: inb_iff_range)
  from roots_loop [OF this, of "[]"] obtain R where
    R: "for_loop [0..m - 1] (\<lambda>i ROOT. bindE (rd P i) (\<lambda>par_i.
          if par_i = i then bindE (rd F i) (\<lambda>f. Inr (ROOT @ [f])) else Inr ROOT)) [] = Inr R" by blast
  have res: "findClusters_off off m ADJ ORD RANK = Inr (S # R # CHILD)"
    using m loop R by (simp add: findClusters_off_def new_vector_def)
  from ch have lenC: "length CHILD = nat m" unfolding child_inv_def by simp
  have f1: "\<forall>c\<in>set (CHILD ! nat v). 0 \<le> c \<and> c < m" if "v \<in> set [0..m - 1]" for v
  proof
    fix c assume c: "c \<in> set (CHILD ! nat v)"
    from that have "0 \<le> v \<and> v < m" by simp
    with ch have "set (CHILD ! nat v) \<subseteq> done_set off ORD m" unfolding child_inv_def by blast
    with c have "c \<in> done_set off ORD m" by blast
    from done_set_range [OF val _ this] show "0 \<le> c \<and> c < m" by simp
  qed
  have f2: "S ! nat v = 1 + sum_list (map (\<lambda>c. S ! nat c) (CHILD ! nat v))"
    if "v \<in> set [0..m - 1]" for v
  proof -
    from that have "0 \<le> v \<and> v < m" by simp
    with ch have "S ! nat v = 1 + sum_children S (CHILD ! nat v)" unfolding child_inv_def by blast
    then show ?thesis by (simp add: sum_children_def)
  qed
  have f3: "\<forall>j\<in>{1..<length (CHILD ! nat v)}. S ! nat (CHILD ! nat v ! 0) \<ge> S ! nat (CHILD ! nat v ! j)"
    if "v \<in> set [0..m - 1]" for v
  proof
    fix j assume "j \<in> {1..<length (CHILD ! nat v)}"
    then have j: "j < length (CHILD ! nat v)" "CHILD ! nat v \<noteq> []" by auto
    from that have "0 \<le> v \<and> v < m" by simp
    with ch have hf: "heavy_first S (CHILD ! nat v)" unfolding child_inv_def by blast
    from j have "CHILD ! nat v ! j \<in> set (CHILD ! nat v)" by simp
    with hf have "S ! nat (CHILD ! nat v ! j) \<le> S ! nat (hd (CHILD ! nat v))"
      unfolding heavy_first_def by blast
    with j(2) show "S ! nat (CHILD ! nat v ! j) \<le> S ! nat (CHILD ! nat v ! 0)"
      by (simp add: hd_conv_nth)
  qed
  have "forest_ok m S CHILD"
    unfolding forest_ok_def using lens(3) lenC f1 f2 f3 by blast
  with res show ?thesis by blast
qed

lemma valid_input_facts:
  assumes "valid_input m ADJ ORD RANK"
  shows "0 \<le> m" "length ADJ = nat m" "length ORD = nat m" "length RANK = nat m"
    and "\<And>k. 0 \<le> k \<and> k < m \<Longrightarrow>
           0 \<le> ORD ! nat k \<and> ORD ! nat k < m \<and> RANK ! nat (ORD ! nat k) = k"
    and "\<And>x. 0 \<le> x \<and> x < m \<Longrightarrow>
           0 \<le> RANK ! nat x \<and> RANK ! nat x < m \<and> ORD ! nat (RANK ! nat x) = x"
    and "\<And>x u. 0 \<le> x \<and> x < m \<Longrightarrow> u \<in> set (ADJ ! nat x) \<Longrightarrow> 0 \<le> u \<and> u < m"
proof -
  from assms show "0 \<le> m" "length ADJ = nat m" "length ORD = nat m" "length RANK = nat m"
    unfolding valid_input_def by blast+
  from assms have O: "\<forall>k\<in>set [0..m - 1]. 0 \<le> ORD ! nat k \<and> ORD ! nat k < m \<and>
      RANK ! nat (ORD ! nat k) = k"
    and R: "\<forall>x\<in>set [0..m - 1]. 0 \<le> RANK ! nat x \<and> RANK ! nat x < m \<and>
      ORD ! nat (RANK ! nat x) = x"
    and A: "\<forall>x\<in>set [0..m - 1]. \<forall>u\<in>set (ADJ ! nat x).
        0 \<le> u \<and> u < m \<and> u \<noteq> x \<and> x \<in> set (ADJ ! nat u)"
    unfolding valid_input_def by blast+
  { fix k :: int assume "0 \<le> k \<and> k < m"
    then have "k \<in> set [0..m - 1]" by simp
    from O [rule_format, OF this]
    show "0 \<le> ORD ! nat k \<and> ORD ! nat k < m \<and> RANK ! nat (ORD ! nat k) = k" . }
  { fix x :: int assume "0 \<le> x \<and> x < m"
    then have "x \<in> set [0..m - 1]" by simp
    from R [rule_format, OF this]
    show "0 \<le> RANK ! nat x \<and> RANK ! nat x < m \<and> ORD ! nat (RANK ! nat x) = x" . }
  { fix x u :: int assume "0 \<le> x \<and> x < m" and u: "u \<in> set (ADJ ! nat x)"
    then have "x \<in> set [0..m - 1]" by simp
    from A [rule_format, OF this u] show "0 \<le> u \<and> u < m" by blast }
qed

lemma valid_input_zero:
  assumes "valid_input m ADJ ORD RANK"
  shows "valid_off 0 m ADJ ORD RANK"
proof -
  note f = valid_input_facts [OF assms]
  show ?thesis
    unfolding valid_off_def
  proof (intro conjI allI impI ballI)
    fix k assume k: "0 \<le> k \<and> k < m"
    from f(5) [OF k] show "0 \<le> ORD ! nat k" "ORD ! nat k < m + 0"
      "RANK ! nat (ORD ! nat k - 0) = k + 0" by simp_all
  next
    fix x assume x: "0 \<le> x \<and> x < m"
    from f(6) [OF x] show "0 \<le> RANK ! nat x" "RANK ! nat x < m + 0"
      "ORD ! nat (RANK ! nat x - 0) = x + 0" by simp_all
  next
    fix x u assume "0 \<le> x \<and> x < m" "u \<in> set (ADJ ! nat x)"
    from f(7) [OF this] show "0 \<le> u" "u < m + 0" by simp_all
  qed (use f(1-4) in simp_all)
qed

lemma valid_input_one:
  assumes "valid_input m ADJ ORD RANK"
  shows "valid_off 1 m (map (map (\<lambda>u. u + 1)) ADJ) (map (\<lambda>v. v + 1) ORD) (map (\<lambda>r. r + 1) RANK)"
proof -
  note f = valid_input_facts [OF assms]
  note lens = f(2-4)
  have n: "nat x < nat m" if "0 \<le> x" "x < m" for x using that by simp
  show ?thesis
    unfolding valid_off_def
  proof (intro conjI allI impI ballI)
    fix k assume k: "0 \<le> k \<and> k < m"
    from f(5) [OF k] have o: "0 \<le> ORD ! nat k" "ORD ! nat k < m" "RANK ! nat (ORD ! nat k) = k"
      by simp_all
    from k have nk: "nat k < nat m" by simp
    from o nk lens
    show "1 \<le> map (\<lambda>v. v + 1) ORD ! nat k" "map (\<lambda>v. v + 1) ORD ! nat k < m + 1"
      by simp_all
    show "map (\<lambda>r. r + 1) RANK ! nat (map (\<lambda>v. v + 1) ORD ! nat k - 1) = k + 1"
      using nk n [OF o(1,2)] o(3) lens by simp
  next
    fix x assume x: "0 \<le> x \<and> x < m"
    from f(6) [OF x] have r: "0 \<le> RANK ! nat x" "RANK ! nat x < m" "ORD ! nat (RANK ! nat x) = x"
      by simp_all
    from x have nx: "nat x < nat m" by simp
    from r nx lens
    show "1 \<le> map (\<lambda>r. r + 1) RANK ! nat x" "map (\<lambda>r. r + 1) RANK ! nat x < m + 1"
      by simp_all
    show "map (\<lambda>v. v + 1) ORD ! nat (map (\<lambda>r. r + 1) RANK ! nat x - 1) = x + 1"
      using nx n [OF r(1,2)] r(3) lens by simp
  next
    fix x u assume x: "0 \<le> x \<and> x < m" and u: "u \<in> set (map (map (\<lambda>u. u + 1)) ADJ ! nat x)"
    from x have "nat x < nat m" by simp
    with lens u have "u \<in> (\<lambda>u. u + 1) ` set (ADJ ! nat x)" by simp
    then obtain u' where u': "u = u' + 1" "u' \<in> set (ADJ ! nat x)" by blast
    from f(7) [OF x u'(2)] u'(1) show "1 \<le> u" "u < m + 1" by simp_all
  qed (use f(1-4) in simp_all)
qed

text \<open>
  Claim C8. On every valid input (\<open>ADJ\<close> symmetric and self-exclusive, \<open>ORD\<close> and \<open>RANK\<close> inverse
  permutations of \<open>[0, m)\<close>), findClusters returns, and in the forest it returns every node
  \<open>v\<close> has children in \<open>[0, m)\<close>, \<open>SIZE[v]\<close> is one more than the sum of the sizes of its
  children, and the first child is at least as large as every other child. This holds for
  the zero-based engine (ARICluster\_zeroBased.cpp) on the input itself and for the
  one-based engine (ARICluster.cpp) on the same input with every id and rank raised by one,
  which is the convention its index arithmetic assumes.
\<close>

theorem findClusters_forest:
  assumes "valid_input m ADJ ORD RANK"
  shows "(\<exists>SIZE ROOT CHILD. findClusters_zeroBased m ADJ ORD RANK = Inr (SIZE # ROOT # CHILD) \<and>
            forest_ok m SIZE CHILD) \<and>
         (\<exists>SIZE ROOT CHILD.
            findClusters m (map (map (\<lambda>u. u + 1)) ADJ) (map (\<lambda>v. v + 1) ORD) (map (\<lambda>r. r + 1) RANK)
              = Inr (SIZE # ROOT # CHILD) \<and>
            forest_ok m SIZE CHILD)"
  using findClusters_off_ok [OF valid_input_zero [OF assms]]
    findClusters_off_ok [OF valid_input_one [OF assms]]
  unfolding findClusters_def findClusters_zeroBased_def by simp

theorem findClusters_forest_witness:
  "findClusters_zeroBased 3 [[1], [0, 2], [1]] [0, 2, 1] [0, 2, 1]
     = Inr [[1, 3, 1], [1], [], [0, 2], []] \<and>
   findClusters 3 [[2], [1, 3], [2]] [1, 3, 2] [1, 3, 2]
     = Inr [[1, 3, 1], [1], [], [0, 2], []] \<and>
   forest_ok 3 [1, 3, 1] [[], [0, 2], []]"
proof -
  have v: "valid_input 3 [[1], [0, 2], [1]] [0, 2, 1] [0, 2, 1]"
    by (simp add: valid_input_def upto.simps)
  have a: "findClusters_zeroBased 3 [[1], [0, 2], [1]] [0, 2, 1] [0, 2, 1]
     = Inr [[1, 3, 1], [1], [], [0, 2], []]" by code_simp
  have b: "findClusters 3 [[2], [1, 3], [2]] [1, 3, 2] [1, 3, 2]
     = Inr [[1, 3, 1], [1], [], [0, 2], []]" by code_simp
  from findClusters_forest [OF v] a b show ?thesis by simp
qed

section \<open>The scratch buffer MARK is restored\<close>

text \<open>\<open>marks_within M S\<close>: every non-zero entry of \<open>M\<close> is at a voxel of \<open>S\<close>.\<close>

definition marks_within :: "int list \<Rightarrow> int set \<Rightarrow> bool" where
  "marks_within M S \<longleftrightarrow> (\<forall>k<length M. M ! k \<noteq> 0 \<longrightarrow> int k \<in> S)"

lemma mark_all_nth:
  "mark_all C x M = Inr M' \<Longrightarrow>
     length M' = length M \<and> (\<forall>k<length M. M' ! k = (if int k \<in> set C then x else M ! k))"
proof (induction C arbitrary: M)
  case Nil
  then show ?case by (simp add: mark_all_def)
next
  case (Cons c C)
  from Cons.prems obtain M1 where M1: "wr M c x = Inr M1" "mark_all C x M1 = Inr M'"
    by (auto simp: mark_all_def bindE_Inr_iff)
  from M1(1) have c: "inb M c" "M1 = M[nat c := x]" by (auto simp: wr_Inr_iff)
  from Cons.IH [OF M1(2)] have IH: "length M' = length M1"
    "\<forall>k<length M1. M' ! k = (if int k \<in> set C then x else M1 ! k)" by auto
  show ?case
  proof (intro conjI allI impI)
    show "length M' = length M" using IH(1) c(2) by simp
  next
    fix k assume k: "k < length M"
    then have "M' ! k = (if int k \<in> set C then x else M1 ! k)" using IH(2) c(2) by simp
    moreover have "M1 ! k = (if int k = c then x else M ! k)"
      using c k by (auto simp: inb_def nth_list_update)
    ultimately show "M' ! k = (if int k \<in> set (c # C) then x else M ! k)" by auto
  qed
qed

lemma mark_all_within:
  assumes "mark_all C x M = Inr M'" and "marks_within M S"
  shows "marks_within M' (S \<union> set C)" and "length M' = length M"
  using mark_all_nth [OF assms(1)] assms(2) by (auto simp: marks_within_def)

lemma mark_all_zero_within:
  assumes "mark_all C 0 M = Inr M'" and "marks_within M (S \<union> set C)"
  shows "marks_within M' S"
  using mark_all_nth [OF assms(1)] assms(2) by (auto simp: marks_within_def)

lemma marks_within_mono: "marks_within M S \<Longrightarrow> S \<subseteq> T \<Longrightarrow> marks_within M T"
  by (auto simp: marks_within_def)

lemma marks_within_empty:
  assumes "marks_within M' {}" and "length M' = length M" and "\<forall>x\<in>set M. x = 0"
  shows "M' = M"
proof (rule nth_equalityI)
  show "length M' = length M" by fact
next
  fix k assume "k < length M'"
  then show "M' ! k = M ! k"
    using assms by (auto simp: marks_within_def)
qed

lemma zeros_within: "\<forall>x\<in>set M. x = 0 \<Longrightarrow> marks_within M S"
  by (auto simp: marks_within_def)

lemma answerQuery_marks:
  assumes zero: "\<forall>x\<in>set MARK. x = 0"
    and res: "answerQuery gamma ADMSTC SIZE MARK TDP CHILD = Inr (ANS, MARK')"
  shows "MARK' = MARK"
proof -
  from res obtain left M1 where
    loop: "for_loop [left..int (length ADMSTC) - 1] (answerQuery_step ADMSTC SIZE CHILD) ([], MARK)
             = Inr (ANS, M1)"
    and clear: "for_loop ANS (\<lambda>c MARK'. mark_all c 0 MARK') M1 = Inr MARK'"
    by (auto simp: answerQuery_def Let_def bindE_Inr_iff split: prod.splits)
  define P where "P = (\<lambda>(pre :: int list) (st :: int list list \<times> int list).
     marks_within (snd st) (\<Union>(set ` set (fst st))) \<and> length (snd st) = length MARK)"
  have "P [left..int (length ADMSTC) - 1] (ANS, M1)"
  proof (rule for_loop_partial [OF loop])
    show "P [] ([], MARK)" using zero by (simp add: P_def zeros_within)
  next
    fix pre x s s'
    assume P: "P pre s" and b: "answerQuery_step ADMSTC SIZE CHILD x s = Inr s'"
    obtain A M where s: "s = (A, M)" by (cases s)
    from P s have inv: "marks_within M (\<Union>(set ` set A))" "length M = length MARK"
      by (auto simp: P_def)
    from b s consider "s' = (A, M)"
      | DESC M' where "s' = (A @ [DESC], M')" "mark_all DESC 1 M = Inr M'"
      by (auto simp: answerQuery_step_def bindE_Inr_iff split: if_splits)
    then show "P (pre @ [x]) s'"
    proof cases
      case 1
      with inv show ?thesis by (simp add: P_def)
    next
      case 2
      from mark_all_within [OF 2(2) inv(1)] inv(2)
      have "marks_within M' (\<Union>(set ` set A) \<union> set DESC)" "length M' = length MARK" by auto
      moreover have "\<Union>(set ` set (A @ [DESC])) = \<Union>(set ` set A) \<union> set DESC" by auto
      ultimately show ?thesis using 2(1) by (simp add: P_def)
    qed
  qed
  then have M1: "marks_within M1 (\<Union>(set ` set ANS))" "length M1 = length MARK"
    by (auto simp: P_def)
  define Q where "Q = (\<lambda>(pre :: int list list) (M :: int list).
     marks_within M (\<Union>(set ` (set ANS - set pre))) \<and> length M = length MARK)"
  have "Q ANS MARK'"
  proof (rule for_loop_partial [OF clear])
    show "Q [] M1" using M1 by (simp add: Q_def)
  next
    fix pre c M M'
    assume Q: "Q pre M" and b: "mark_all c 0 M = Inr M'"
    from Q have inv: "marks_within M (\<Union>(set ` (set ANS - set pre)))" "length M = length MARK"
      by (auto simp: Q_def)
    have "\<Union>(set ` (set ANS - set pre)) \<subseteq> \<Union>(set ` (set ANS - set (pre @ [c]))) \<union> set c"
      by auto
    from marks_within_mono [OF inv(1) this] have "marks_within M' (\<Union>(set ` (set ANS - set (pre @ [c]))))"
      using mark_all_zero_within [OF b] by blast
    moreover have "length M' = length MARK" using mark_all_nth [OF b] inv(2) by simp
    ultimately show "Q (pre @ [c]) M'" by (simp add: Q_def)
  qed
  then have "marks_within MARK' {}" "length MARK' = length MARK"
    by (auto simp: Q_def)
  then show ?thesis using zero by (rule marks_within_empty)
qed












section \<open>The clusters of an answer are disjoint\<close>

text \<open>
  The arrays \<open>SIZE\<close> and \<open>CHILD\<close> describe a forest. A tree of that forest is written as a
  term: its representative and the trees of its children, in the order of \<open>CHILD\<close>.
  \<open>postorder t\<close> lists the nodes of \<open>t\<close>, children first; \<open>wf_tree SIZE CHILD t\<close> says that
  the arrays hold exactly \<open>t\<close> at its nodes.
\<close>

datatype ctree = CNode (rep: int) (subs: "ctree list")

fun postorder :: "ctree \<Rightarrow> int list" where
  "postorder (CNode v ts) = concat (map postorder ts) @ [v]"

fun wf_tree :: "int list \<Rightarrow> int list list \<Rightarrow> ctree \<Rightarrow> bool" where
  "wf_tree SIZE CHILD (CNode v ts) \<longleftrightarrow>
     inb SIZE v \<and> inb CHILD v \<and> CHILD ! nat v = map rep ts \<and>
     SIZE ! nat v = int (length (postorder (CNode v ts))) \<and>
     (\<forall>t\<in>set ts. wf_tree SIZE CHILD t)"

text \<open>
  The stack of descendants lives in the right part of \<open>DESC\<close>: a node still to be expanded
  is stored as itself, a node whose children are done and that waits to be appended is
  stored negated.
\<close>

datatype item = Expand ctree | Emit int

fun enc :: "item \<Rightarrow> int" where
  "enc (Expand t) = rep t"
| "enc (Emit v) = - v - 1"

fun work :: "item \<Rightarrow> int list" where
  "work (Expand t) = postorder t"
| "work (Emit v) = [v]"

fun weight :: "item \<Rightarrow> nat" where
  "weight (Expand t) = 2 * length (postorder t)"
| "weight (Emit v) = 1"

fun ok_item :: "int list \<Rightarrow> int list list \<Rightarrow> item \<Rightarrow> bool" where
  "ok_item SIZE CHILD (Expand t) = wf_tree SIZE CHILD t"
| "ok_item SIZE CHILD (Emit v) = (0 \<le> v)"

lemma postorder_nonempty: "postorder t \<noteq> []"
  by (cases t) simp

lemma last_postorder: "last (postorder t) = rep t"
  by (cases t) simp

lemma rep_in_postorder: "rep t \<in> set (postorder t)"
  by (cases t) simp

lemma length_le_concat:
  "(\<And>x. x \<in> set xs \<Longrightarrow> f x \<noteq> []) \<Longrightarrow> length xs \<le> length (concat (map f xs))"
proof (induction xs)
  case Nil
  then show ?case by simp
next
  case (Cons x xs)
  then have "f x \<noteq> []" by simp
  then have "1 \<le> length (f x)" by (cases "f x") simp_all
  moreover from Cons have "length xs \<le> length (concat (map f xs))" by simp
  ultimately show ?case by simp
qed

lemma work_nonempty: "work it \<noteq> []"
  by (cases it) (simp_all add: postorder_nonempty)

lemma push_children_ok:
  "length cs \<le> length A \<Longrightarrow>
   push_children cs (A @ B) (int (length A)) =
     Inr (take (length A - length cs) A @ rev cs @ B, int (length A) - int (length cs))"
proof (induction cs arbitrary: A B)
  case Nil
  then show ?case by simp
next
  case (Cons c cs)
  then have "A \<noteq> []" by auto
  then obtain A' x where A: "A = A' @ [x]" by (metis rev_exhaust)
  have w: "wr (A @ B) (int (length A) - 1) c = Inr (A' @ (c # B))"
    unfolding A by (simp add: wr_def inb_def)
  from Cons.prems A have len: "length cs \<le> length A'" by simp
  have tk: "take (length A - length (c # cs)) A = take (length A' - length cs) A'"
    unfolding A by simp
  have "int (length A) - 1 = int (length A')" unfolding A by simp
  with w Cons.IH [OF len, of "c # B"] tk show ?case by (simp add: A)
qed

lemma descendants_loop_ok:
  assumes "\<forall>it\<in>set its. ok_item SIZE CHILD it"
    and "out @ concat (map work its) = res"
    and "length (out @ G @ map enc its) = length res"
  shows "descendants_loop CHILD (out @ G @ map enc its) (int (length out))
           (int (length out + length G)) = Some (Inr res)"
  using assms
proof (induction "sum_list (map weight its)" arbitrary: its out G rule: less_induct)
  case less
  show ?case
  proof (cases its)
    case Nil
    with less.prems(2,3) have "G = []" "out = res" by auto
    with Nil show ?thesis by (subst descendants_loop.simps) simp
  next
    case (Cons it rest)
    let ?DESC = "out @ G @ map enc its"
    let ?tp = "int (length out + length G)"
    have tp: "?tp < int (length ?DESC)" using Cons by simp
    have rdtp: "rd ?DESC ?tp = Inr (enc it)"
    proof -
      have "((out @ G) @ enc it # map enc rest) ! length (out @ G) = enc it"
        by (rule nth_append_length)
      then have "?DESC ! nat ?tp = enc it" using Cons by (simp add: nat_int_add)
      with tp show ?thesis by (simp add: rd_def inb_def)
    qed
    from less.prems(1) Cons have okrest: "\<forall>it\<in>set rest. ok_item SIZE CHILD it" 
      and okit: "ok_item SIZE CHILD it" by simp_all
    have cnt: "length G + length its = length (concat (map work its))"
      using less.prems(2,3) by auto
    show ?thesis
    proof (cases it)
      case (Emit v)
      with okit have v: "0 \<le> v" by simp
      then have neg: "enc it < 0" using Emit by simp
      define G' where "G' = (if G = [] then [] else tl G @ [enc it])"
      have wrl: "wr ?DESC (int (length out)) (- enc it - 1) = Inr ((out @ [v]) @ G' @ map enc rest)"
      proof (cases G)
        case Nil
        then show ?thesis using Cons Emit by (simp add: wr_def inb_def G'_def)
      next
        case (Cons g G1)
        then show ?thesis using \<open>its = it # rest\<close> Emit by (simp add: wr_def inb_def G'_def)
      qed
      have lenG': "int (length (out @ [v]) + length G') = ?tp + 1"
        by (cases G) (simp_all add: G'_def)
      have m: "sum_list (map weight rest) < sum_list (map weight its)"
        using Cons Emit by simp
      have r2: "(out @ [v]) @ concat (map work rest) = res"
        using less.prems(2) Cons Emit by simp
      have l2: "length ((out @ [v]) @ G' @ map enc rest) = length res"
        using less.prems(3) Cons by (cases G) (simp_all add: G'_def)
      from less.hyps [OF m okrest r2 l2] lenG'
      have "descendants_loop CHILD ((out @ [v]) @ G' @ map enc rest) (int (length out) + 1) (?tp + 1)
              = Some (Inr res)" by (simp add: ac_simps)
      with tp rdtp neg wrl show ?thesis
        by (subst descendants_loop.simps) simp
    next
      case (Expand t)
      obtain v ts where t: "t = CNode v ts" by (cases t)
      with okit Expand have wf: "inb SIZE v" "inb CHILD v" "CHILD ! nat v = map rep ts"
        "\<forall>t\<in>set ts. wf_tree SIZE CHILD t" by simp_all
      from wf(2) have v: "0 \<le> v" by (simp add: inb_def)
      have e: "enc it = v" using Expand t by simp
      have wrt: "wr ?DESC ?tp (- v - 1) = Inr ((out @ G) @ (- v - 1) # map enc rest)"
      proof -
        have "?DESC = (out @ G) @ enc it # map enc rest" using Cons by simp
        moreover have "((out @ G) @ enc it # map enc rest)[length (out @ G) := - v - 1]
                 = (out @ G) @ (- v - 1) # map enc rest"
          by (simp add: list_update_append)
        ultimately show ?thesis using tp by (simp add: wr_def inb_def nat_int_add)
      qed
      have "length ts \<le> length (concat (map postorder ts))"
        by (rule length_le_concat) (simp add: postorder_nonempty)
      moreover have "length rest \<le> length (concat (map work rest))"
        by (rule length_le_concat) (simp add: work_nonempty)
      ultimately have k: "length ts \<le> length G"
        using cnt Cons Expand t by simp
      then have k': "length (rev (map rep ts)) \<le> length (out @ G)" by simp
      define G' where "G' = take (length G - length ts) G"
      have tk: "take (length (out @ G) - length (rev (map rep ts))) (out @ G) = out @ G'"
        using k by (simp add: G'_def)
      from push_children_ok [OF k', of "(- v - 1) # map enc rest"] tk
      have push: "push_children (rev (map rep ts)) ((out @ G) @ (- v - 1) # map enc rest) ?tp
           = Inr (out @ G' @ map rep ts @ (- v - 1) # map enc rest, ?tp - int (length ts))"
        by simp
      define its' where "its' = map Expand ts @ Emit v # rest"
      have enc': "map enc its' = map rep ts @ (- v - 1) # map enc rest"
        by (simp add: its'_def comp_def)
      have tp': "?tp - int (length ts) = int (length out + length G')"
        using k by (simp add: G'_def)
      have ok': "\<forall>it\<in>set its'. ok_item SIZE CHILD it"
        using okrest wf(4) v by (auto simp: its'_def)
      have "concat (map work (map Expand ts)) = concat (map postorder ts)"
        by (simp add: comp_def)
      then have w': "concat (map work its') = concat (map work its)"
        using Cons Expand t by (simp add: its'_def)
      have "sum_list (map weight (map Expand ts)) = 2 * length (concat (map postorder ts))"
        by (induction ts) (simp_all)
      then have m: "sum_list (map weight its') < sum_list (map weight its)"
        using Cons Expand t by (simp add: its'_def)
      have r2: "out @ concat (map work its') = res" using w' less.prems(2) by simp
      have l2: "length (out @ G' @ map enc its') = length res"
        using less.prems(3) Cons k by (simp add: its'_def G'_def)
      from less.hyps [OF m ok' r2 l2]
      have "descendants_loop CHILD (out @ G' @ map rep ts @ (- v - 1) # map enc rest) (int (length out))
              (?tp - int (length ts)) = Some (Inr res)" by (simp only: enc' tp')
      moreover have rdC: "rd CHILD v = Inr (map rep ts)" using wf(2,3) by (simp add: rd_def)
      ultimately show ?thesis
        using tp rdtp e v wrt push
        by (subst descendants_loop.simps) (simp del: append_assoc)
    qed
  qed
qed

lemma descendants_ok:
  assumes "wf_tree SIZE CHILD t"
  shows "descendants (rep t) SIZE CHILD = Inr (postorder t)"
proof -
  obtain v ts where t: "t = CNode v ts" by (cases t)
  define n where "n = length (postorder t)"
  from assms t have wf: "inb SIZE v" "SIZE ! nat v = int n" by (simp_all add: n_def)
  have n: "0 < n" using postorder_nonempty [of t] by (simp add: n_def)
  have d1: "wr (replicate n 0) (int n - 1) v = Inr ([] @ replicate (n - 1) 0 @ map enc [Expand t])"
  proof -
    from n obtain k where k: "n = Suc k" by (cases n) auto
    have "(replicate k (0::int) @ [0])[k := v] = replicate k 0 @ [v]"
      by (simp add: list_update_append)
    then have "(replicate n (0::int))[n - 1 := v] = replicate (n - 1) 0 @ [v]"
      unfolding k by (simp add: replicate_append_same)
    moreover have "nat (int n - 1) = n - 1" by simp
    ultimately show ?thesis using n t by (simp add: wr_def inb_def)
  qed
  have "descendants_loop CHILD ([] @ replicate (n - 1) 0 @ map enc [Expand t]) (int (length ([] :: int list)))
          (int (length ([] :: int list) + length (replicate (n - 1) (0::int)))) = Some (Inr (postorder t))"
    using assms n
    by (intro descendants_loop_ok [where SIZE = SIZE and its = "[Expand t]"]) (simp_all add: n_def)
  moreover have "int (n - 1) = int n - 1" using n by simp
  ultimately have "descendants_loop CHILD ([] @ replicate (n - 1) 0 @ map enc [Expand t]) 0 (int n - 1)
       = Some (Inr (postorder t))" by simp
  with wf d1 t show ?thesis
    by (simp add: descendants_def new_vector_def run_def)
qed

text \<open>
  \<open>occs p t\<close> lists every subtree of \<open>t\<close> with the representatives of its proper ancestors,
  the nearest first, on top of the path \<open>p\<close> of \<open>t\<close> itself.
\<close>

fun occs :: "int list \<Rightarrow> ctree \<Rightarrow> (int list \<times> ctree) list" where
  "occs p (CNode v ts) = (p, CNode v ts) # concat (map (occs (v # p)) ts)"

definition forest_occs :: "ctree list \<Rightarrow> (int list \<times> ctree) set" where
  "forest_occs F = (\<Union>t\<in>set F. set (occs [] t))"

lemma occs_self: "(p, t) \<in> set (occs p t)"
  by (cases t) simp

lemma occs_labels: "(q, s) \<in> set (occs p t) \<Longrightarrow> set (postorder s) \<subseteq> set (postorder t)"
proof (induction t arbitrary: p)
  case (CNode v ts)
  from CNode.prems have "(q, s) = (p, CNode v ts) \<or> (\<exists>k\<in>set ts. (q, s) \<in> set (occs (v # p) k))"
    by auto
  then show ?case
  proof
    assume "(q, s) = (p, CNode v ts)"
    then show ?thesis by simp
  next
    assume "\<exists>k\<in>set ts. (q, s) \<in> set (occs (v # p) k)"
    then obtain k where k: "k \<in> set ts" "(q, s) \<in> set (occs (v # p) k)" by blast
    from CNode.IH [OF k] have "set (postorder s) \<subseteq> set (postorder k)" .
    with k(1) show ?thesis by auto
  qed
qed

lemma occs_path: "(q, s) \<in> set (occs p t) \<Longrightarrow> set p \<subseteq> set q"
proof (induction t arbitrary: p)
  case (CNode v ts)
  from CNode.prems have "(q, s) = (p, CNode v ts) \<or> (\<exists>k\<in>set ts. (q, s) \<in> set (occs (v # p) k))"
    by auto
  then show ?case
  proof
    assume "(q, s) = (p, CNode v ts)"
    then show ?thesis by simp
  next
    assume "\<exists>k\<in>set ts. (q, s) \<in> set (occs (v # p) k)"
    then obtain k where k: "k \<in> set ts" "(q, s) \<in> set (occs (v # p) k)" by blast
    from CNode.IH [OF k] show ?thesis by auto
  qed
qed

lemma occs_wf: "wf_tree SIZE CHILD t \<Longrightarrow> (q, s) \<in> set (occs p t) \<Longrightarrow> wf_tree SIZE CHILD s"
proof (induction t arbitrary: p)
  case (CNode v ts)
  from CNode.prems(2) have "(q, s) = (p, CNode v ts) \<or> (\<exists>k\<in>set ts. (q, s) \<in> set (occs (v # p) k))"
    by auto
  then show ?case
  proof
    assume "(q, s) = (p, CNode v ts)"
    with CNode.prems(1) show ?thesis by simp
  next
    assume "\<exists>k\<in>set ts. (q, s) \<in> set (occs (v # p) k)"
    then obtain k where k: "k \<in> set ts" "(q, s) \<in> set (occs (v # p) k)" by blast
    from CNode.prems(1) k(1) have "wf_tree SIZE CHILD k" by simp
    from CNode.IH [OF k(1) this k(2)] show ?thesis .
  qed
qed

lemma occs_child:
  "(q, CNode w us) \<in> set (occs p t) \<Longrightarrow> c \<in> set us \<Longrightarrow> (w # q, c) \<in> set (occs p t)"
proof (induction t arbitrary: p)
  case (CNode v ts)
  from CNode.prems(1) have "(q, CNode w us) = (p, CNode v ts) \<or>
      (\<exists>k\<in>set ts. (q, CNode w us) \<in> set (occs (v # p) k))"
    by auto
  then show ?case
  proof
    assume "(q, CNode w us) = (p, CNode v ts)"
    with CNode.prems(2) occs_self [of "v # p" c] show ?thesis by auto
  next
    assume "\<exists>k\<in>set ts. (q, CNode w us) \<in> set (occs (v # p) k)"
    then obtain k where k: "k \<in> set ts" "(q, CNode w us) \<in> set (occs (v # p) k)" by blast
    from CNode.IH [OF k CNode.prems(2)] k(1) show ?thesis by auto
  qed
qed

lemma distinct_concat_disjoint:
  "distinct (concat (map f xs)) \<Longrightarrow> x \<in> set xs \<Longrightarrow> y \<in> set xs \<Longrightarrow> x \<noteq> y \<Longrightarrow>
     set (f x) \<inter> set (f y) = {}"
proof (induction xs)
  case Nil
  then show ?case by simp
next
  case (Cons a xs)
  from Cons.prems(1) have d: "distinct (concat (map f xs))"
    and dis: "\<forall>z\<in>set xs. set (f a) \<inter> set (f z) = {}" by auto
  show ?case
  proof (cases "x = a")
    case True
    with Cons.prems(3,4) have "y \<in> set xs" by auto
    with dis True show ?thesis by blast
  next
    case xa: False
    with Cons.prems(2) have x: "x \<in> set xs" by simp
    show ?thesis
    proof (cases "y = a")
      case True
      with dis x show ?thesis by blast
    next
      case False
      with Cons.prems(3) have "y \<in> set xs" by simp
      from Cons.IH [OF d x this Cons.prems(4)] show ?thesis .
    qed
  qed
qed

lemma distinct_concat_member:
  "distinct (concat (map f xs)) \<Longrightarrow> x \<in> set xs \<Longrightarrow> distinct (f x)"
  by (induction xs) auto

lemma occs_nested:
  "distinct (postorder t) \<Longrightarrow> (p1, s1) \<in> set (occs p t) \<Longrightarrow> (p2, s2) \<in> set (occs p t) \<Longrightarrow>
     set (postorder s1) \<inter> set (postorder s2) = {} \<or> rep s2 \<in> set (postorder s1) \<or>
     rep s2 \<in> set p1"
proof (induction t arbitrary: p)
  case (CNode v ts)
  from CNode.prems(1) have d: "distinct (concat (map postorder ts))" by simp
  from CNode.prems(2) have c1: "(p1, s1) = (p, CNode v ts) \<or>
      (\<exists>k\<in>set ts. (p1, s1) \<in> set (occs (v # p) k))" by auto
  from CNode.prems(3) have c2: "(p2, s2) = (p, CNode v ts) \<or>
      (\<exists>k\<in>set ts. (p2, s2) \<in> set (occs (v # p) k))" by auto
  from c1 show ?case
  proof
    assume "(p1, s1) = (p, CNode v ts)"
    then have "s1 = CNode v ts" by simp
    with occs_labels [OF CNode.prems(3)] rep_in_postorder [of s2] show ?thesis by blast
  next
    assume "\<exists>k\<in>set ts. (p1, s1) \<in> set (occs (v # p) k)"
    then obtain k1 where k1: "k1 \<in> set ts" "(p1, s1) \<in> set (occs (v # p) k1)" by blast
    from c2 show ?thesis
    proof
      assume "(p2, s2) = (p, CNode v ts)"
      then have "rep s2 = v" by simp
      with occs_path [OF k1(2)] show ?thesis by auto
    next
      assume "\<exists>k\<in>set ts. (p2, s2) \<in> set (occs (v # p) k)"
      then obtain k2 where k2: "k2 \<in> set ts" "(p2, s2) \<in> set (occs (v # p) k2)" by blast
      show ?thesis
      proof (cases "k1 = k2")
        case True
        from distinct_concat_member [OF d k1(1)] have "distinct (postorder k1)" .
        from CNode.IH [OF k1(1) this k1(2)] k2(2) True show ?thesis by blast
      next
        case False
        from distinct_concat_disjoint [OF d k1(1) k2(1) False]
        have "set (postorder k1) \<inter> set (postorder k2) = {}" .
        with occs_labels [OF k1(2)] occs_labels [OF k2(2)] show ?thesis by blast
      qed
    qed
  qed
qed

lemma forest_occs_nested:
  assumes d: "distinct (concat (map postorder F))"
    and o1: "(p1, s1) \<in> forest_occs F" and o2: "(p2, s2) \<in> forest_occs F"
  shows "set (postorder s1) \<inter> set (postorder s2) = {} \<or> rep s2 \<in> set (postorder s1) \<or>
     rep s2 \<in> set p1"
proof -
  from o1 obtain f1 where f1: "f1 \<in> set F" "(p1, s1) \<in> set (occs [] f1)"
    by (auto simp: forest_occs_def)
  from o2 obtain f2 where f2: "f2 \<in> set F" "(p2, s2) \<in> set (occs [] f2)"
    by (auto simp: forest_occs_def)
  show ?thesis
  proof (cases "f1 = f2")
    case True
    from distinct_concat_member [OF d f1(1)] have "distinct (postorder f1)" .
    from occs_nested [OF this f1(2)] f2(2) True show ?thesis by blast
  next
    case False
    from distinct_concat_disjoint [OF d f1(1) f2(1) False]
    have "set (postorder f1) \<inter> set (postorder f2) = {}" .
    with occs_labels [OF f1(2)] occs_labels [OF f2(2)] show ?thesis by blast
  qed
qed

lemma forest_occs_wf:
  "\<forall>t\<in>set F. wf_tree SIZE CHILD t \<Longrightarrow> (q, s) \<in> forest_occs F \<Longrightarrow> wf_tree SIZE CHILD s"
  using occs_wf by (fastforce simp: forest_occs_def)

lemma forest_occs_child:
  "(q, CNode w us) \<in> forest_occs F \<Longrightarrow> c \<in> set us \<Longrightarrow> (w # q, c) \<in> forest_occs F"
  using occs_child by (fastforce simp: forest_occs_def)

lemma forest_occs_root: "f \<in> set F \<Longrightarrow> ([], f) \<in> forest_occs F"
  using occs_self by (fastforce simp: forest_occs_def)

text \<open>
  A node is admissible when its TDP exceeds the TDP of each of its proper ancestors.
\<close>

definition admissible :: "(int list \<times> ctree) set \<Rightarrow> real list \<Rightarrow> int \<Rightarrow> bool" where
  "admissible Occ TDP w \<longleftrightarrow>
     (\<exists>p s. (p, s) \<in> Occ \<and> rep s = w \<and> (\<forall>a\<in>set p. TDP ! nat a < TDP ! nat w))"

lemma queryPreparation_loop_ok:
  fixes ES :: "(int list \<times> ctree \<times> real) list"
  assumes closed: "\<And>p v ts c. (p, CNode v ts) \<in> Occ \<Longrightarrow> c \<in> set ts \<Longrightarrow> (v # p, c) \<in> Occ"
    and wfO: "\<And>p t. (p, t) \<in> Occ \<Longrightarrow> wf_tree SIZE CHILD t"
    and lenT: "length TDP = length SIZE"
  shows "\<forall>(p, t, q)\<in>set ES. (p, t) \<in> Occ \<and> (\<forall>a\<in>set p. TDP ! nat a \<le> q) \<Longrightarrow>
     \<forall>w\<in>set ACC. admissible Occ TDP w \<Longrightarrow>
     \<exists>ACC'. queryPreparation_loop TDP CHILD (map (\<lambda>(p, t, q). (rep t, q)) ES) ACC = Some (Inr ACC') \<and>
        (\<forall>w\<in>set ACC'. admissible Occ TDP w)"
proof (induction "sum_list (map (\<lambda>(p, t, q). length (postorder t)) ES)" arbitrary: ES ACC
    rule: less_induct)
  case less
  show ?case
  proof (cases ES)
    case Nil
    with less.prems(2) show ?thesis by (subst queryPreparation_loop.simps) simp
  next
    case (Cons e rest)
    obtain p t q where e: "e = (p, t, q)" by (cases e)
    obtain v ts where t: "t = CNode v ts" by (cases t)
    from less.prems(1) Cons e t have o: "(p, CNode v ts) \<in> Occ" and pq: "\<forall>a\<in>set p. TDP ! nat a \<le> q"
      and rest: "\<forall>(p, t, q)\<in>set rest. (p, t) \<in> Occ \<and> (\<forall>a\<in>set p. TDP ! nat a \<le> q)"
      by auto
    from wfO [OF o] have wf: "inb SIZE v" "inb CHILD v" "CHILD ! nat v = map rep ts" by simp_all
    from wf(1) lenT have inbT: "inb TDP v" by (simp add: inb_def)
    define tv where "tv = TDP ! nat v"
    define ES' where "ES' = rev (map (\<lambda>c. (v # p, c, max tv q)) ts) @ rest"
    define ACC1 where "ACC1 = (if tv > q then ACC @ [v] else ACC)"
    have stk: "map (\<lambda>(p, t, q). (rep t, q)) ES' = rev (map (\<lambda>c. (c, max tv q)) (map rep ts)) @
        map (\<lambda>(p, t, q). (rep t, q)) rest"
      by (simp add: ES'_def rev_map comp_def)
    have "sum_list (map (\<lambda>(p, t, q). length (postorder t)) (rev (map (\<lambda>c. (v # p, c, max tv q)) ts)))
        = length (concat (map postorder ts))"
      by (induction ts) simp_all
    then have m: "sum_list (map (\<lambda>(p, t, q). length (postorder t)) ES')
        < sum_list (map (\<lambda>(p, t, q). length (postorder t)) ES)"
      using Cons e t by (simp add: ES'_def)
    have inv': "\<forall>(p, t, q)\<in>set ES'. (p, t) \<in> Occ \<and> (\<forall>a\<in>set p. TDP ! nat a \<le> q)"
    proof -
      have "(v # p, c) \<in> Occ \<and> (\<forall>a\<in>set (v # p). TDP ! nat a \<le> max tv q)" if "c \<in> set ts" for c
        using closed [OF o that] pq by (auto simp: tv_def max_def)
      with rest show ?thesis by (auto simp: ES'_def)
    qed
    have acc': "\<forall>w\<in>set ACC1. admissible Occ TDP w"
    proof (cases "tv > q")
      case True
      with pq have "\<forall>a\<in>set p. TDP ! nat a < TDP ! nat v" by (auto simp: tv_def)
      with o have "admissible Occ TDP v" unfolding admissible_def by force
      with less.prems(2) True show ?thesis by (simp add: ACC1_def)
    next
      case False
      with less.prems(2) show ?thesis by (simp add: ACC1_def)
    qed
    from less.hyps [OF m inv' acc'] obtain ACC' where
      r: "queryPreparation_loop TDP CHILD (map (\<lambda>(p, t, q). (rep t, q)) ES') ACC1 = Some (Inr ACC')"
      "\<forall>w\<in>set ACC'. admissible Occ TDP w" by blast
    have "queryPreparation_loop TDP CHILD (map (\<lambda>(p, t, q). (rep t, q)) ES) ACC
        = queryPreparation_loop TDP CHILD (map (\<lambda>(p, t, q). (rep t, q)) ES') ACC1"
      unfolding stk
      using Cons e t inbT wf(2,3)
      by (subst queryPreparation_loop.simps) (simp add: rd_def tv_def ACC1_def)
    with r show ?thesis by auto
  qed
qed

lemma queryPreparation_walk_ok:
  assumes closed: "\<And>p v ts c. (p, CNode v ts) \<in> Occ \<Longrightarrow> c \<in> set ts \<Longrightarrow> (v # p, c) \<in> Occ"
    and wfO: "\<And>p t. (p, t) \<in> Occ \<Longrightarrow> wf_tree SIZE CHILD t"
    and lenT: "length TDP = length SIZE"
  shows "\<forall>f\<in>set Fs. ([], f) \<in> Occ \<Longrightarrow> \<forall>w\<in>set ACC. admissible Occ TDP w \<Longrightarrow>
     \<exists>W. for_loop (map rep Fs)
            (\<lambda>r ADMSTC. run (queryPreparation_loop TDP CHILD [(r, - 1)] ADMSTC)) ACC = Inr W \<and>
        (\<forall>w\<in>set W. admissible Occ TDP w)"
proof (induction Fs arbitrary: ACC)
  case Nil
  then show ?case by simp
next
  case (Cons f Fs)
  have "\<exists>ACC'. queryPreparation_loop TDP CHILD
            (map (\<lambda>(p, t, q). (rep t, q)) [([] :: int list, f, - 1 :: real)]) ACC = Some (Inr ACC') \<and>
          (\<forall>w\<in>set ACC'. admissible Occ TDP w)"
  proof (rule queryPreparation_loop_ok [where Occ = Occ and SIZE = SIZE])
    fix p v ts c assume "(p, CNode v ts) \<in> Occ" "c \<in> set ts"
    then show "(v # p, c) \<in> Occ" by (rule closed)
  next
    fix p t assume "(p, t) \<in> Occ"
    then show "wf_tree SIZE CHILD t" by (rule wfO)
  next
    show "length TDP = length SIZE" by fact
  next
    show "\<forall>(p, t, q)\<in>set [([] :: int list, f, - 1 :: real)]. (p, t) \<in> Occ \<and> (\<forall>a\<in>set p. TDP ! nat a \<le> q)"
      using Cons.prems(1) by simp
  next
    show "\<forall>w\<in>set ACC. admissible Occ TDP w" by fact
  qed
  then obtain ACC' where a: "queryPreparation_loop TDP CHILD [(rep f, - 1)] ACC = Some (Inr ACC')"
    "\<forall>w\<in>set ACC'. admissible Occ TDP w" by auto
  from Cons.prems(1) have "\<forall>f\<in>set Fs. ([], f) \<in> Occ" by simp
  from Cons.IH [OF this a(2)] a(1) show ?case by (simp add: run_def)
qed

lemma c_div_two: "0 \<le> a \<Longrightarrow> c_div a 2 = a div 2"
  by (cases "a = 0") (simp_all add: c_div_def)

text \<open>The TDP of the \<open>i\<close>-th entry of \<open>ADMSTC\<close>.\<close>

definition tdp_at :: "real list \<Rightarrow> int list \<Rightarrow> int \<Rightarrow> real" where
  "tdp_at TDP ADMSTC i = TDP ! nat (ADMSTC ! nat i)"

lemma findLeft_loop_ok:
  assumes srt: "\<forall>i j. 0 \<le> i \<and> i \<le> j \<and> j < int (length ADMSTC) \<longrightarrow>
                 tdp_at TDP ADMSTC i \<le> tdp_at TDP ADMSTC j"
    and inbT: "\<forall>a\<in>set ADMSTC. inb TDP a"
  shows "0 \<le> low \<Longrightarrow> low \<le> high \<Longrightarrow> high \<le> int (length ADMSTC) \<Longrightarrow>
     high - low \<le> right \<Longrightarrow> right \<le> int (length ADMSTC) \<Longrightarrow>
     (\<forall>i. high \<le> i \<and> i < int (length ADMSTC) \<longrightarrow> gamma \<le> tdp_at TDP ADMSTC i) \<Longrightarrow>
     (\<forall>i. right \<le> i \<and> i < int (length ADMSTC) \<longrightarrow> gamma \<le> tdp_at TDP ADMSTC i) \<Longrightarrow>
     \<exists>left. findLeft_loop gamma ADMSTC TDP low high right = Inr left \<and> 0 \<le> left \<and>
        left \<le> int (length ADMSTC) \<and>
        (\<forall>i. left \<le> i \<and> i < int (length ADMSTC) \<longrightarrow> gamma \<le> tdp_at TDP ADMSTC i)"
proof (induction "nat right" arbitrary: low high right rule: less_induct)
  case less
  let ?n = "int (length ADMSTC)"
  show ?case
  proof (cases "low < high")
    case False
    with less.prems(2) have "low = high" by simp
    with less.prems show ?thesis
      by (subst findLeft_loop.simps) auto
  next
    case True
    define mid where "mid = c_div (low + high) 2"
    have mid: "mid = (low + high) div 2" using less.prems(1,2) by (simp add: mid_def c_div_two)
    then have m: "low \<le> mid" "mid < high" using True by simp_all
    have r: "1 \<le> right" using True less.prems(4) by simp
    have rdm: "rd ADMSTC mid = Inr (ADMSTC ! nat mid)"
      using m less.prems(1,3) by (simp add: rd_def inb_def)
    have "nat mid < length ADMSTC" using m less.prems(1,3) by simp
    then have "ADMSTC ! nat mid \<in> set ADMSTC" by simp
    with inbT have rdt: "rd TDP (ADMSTC ! nat mid) = Inr (tdp_at TDP ADMSTC mid)"
      by (simp add: rd_def tdp_at_def)
    have rdr: "rd ADMSTC (right - 1) = Inr (ADMSTC ! nat (right - 1))"
      using r less.prems(5) by (simp add: rd_def inb_def)
    have "nat (right - 1) < length ADMSTC" using r less.prems(5) by simp
    then have "ADMSTC ! nat (right - 1) \<in> set ADMSTC" by simp
    with inbT have rdb: "rd TDP (ADMSTC ! nat (right - 1)) = Inr (tdp_at TDP ADMSTC (right - 1))"
      by (simp add: rd_def tdp_at_def)
    have unf: "findLeft_loop gamma ADMSTC TDP low high right =
        (if tdp_at TDP ADMSTC (right - 1) < gamma then Inr right
         else if gamma \<le> tdp_at TDP ADMSTC mid
              then findLeft_loop gamma ADMSTC TDP low mid (right - 1)
              else findLeft_loop gamma ADMSTC TDP (mid + 1) high (right - 1))"
      using True rdm rdt rdr rdb
      by (subst findLeft_loop.simps) (simp add: mid_def [symmetric] Let_def)
    show ?thesis
    proof (cases "tdp_at TDP ADMSTC (right - 1) < gamma")
      case lin: True
      with unf less.prems(5,7) r show ?thesis by auto
    next
      case lin: False
      have R': "\<forall>i. right - 1 \<le> i \<and> i < ?n \<longrightarrow> gamma \<le> tdp_at TDP ADMSTC i"
      proof (intro allI impI)
        fix i assume i: "right - 1 \<le> i \<and> i < ?n"
        show "gamma \<le> tdp_at TDP ADMSTC i"
        proof (cases "i = right - 1")
          case True
          with lin show ?thesis by simp
        next
          case False
          with i have "right \<le> i \<and> i < ?n" by simp
          with less.prems(7) show ?thesis by blast
        qed
      qed
      have dec: "nat (right - 1) < nat right" using r by simp
      have r5: "right - 1 \<le> ?n" using less.prems(5) by simp
      show ?thesis
      proof (cases "gamma \<le> tdp_at TDP ADMSTC mid")
        case True
        have H': "\<forall>i. mid \<le> i \<and> i < ?n \<longrightarrow> gamma \<le> tdp_at TDP ADMSTC i"
        proof (intro allI impI)
          fix i assume i: "mid \<le> i \<and> i < ?n"
          with m less.prems(1) have "0 \<le> mid \<and> mid \<le> i \<and> i < ?n" by simp
          with srt have "tdp_at TDP ADMSTC mid \<le> tdp_at TDP ADMSTC i" by blast
          with True show "gamma \<le> tdp_at TDP ADMSTC i" by simp
        qed
        have a3: "mid \<le> ?n" using m less.prems(3) by simp
        have a4: "mid - low \<le> right - 1" using mid True less.prems(4) \<open>low < high\<close> by simp
        from less.hyps [OF dec less.prems(1) m(1) a3 a4 r5 H' R'] unf lin True
        show ?thesis by simp
      next
        case False
        have a1: "0 \<le> mid + 1" using m less.prems(1) by simp
        have a2: "mid + 1 \<le> high" using m by simp
        have a4: "high - (mid + 1) \<le> right - 1" using m less.prems(4) by simp
        from less.hyps [OF dec a1 a2 less.prems(3) a4 r5 less.prems(6) R'] unf lin False
        show ?thesis by simp
      qed
    qed
  qed
qed

lemma findLeft_ok:
  assumes srt: "\<forall>i j. 0 \<le> i \<and> i \<le> j \<and> j < int (length ADMSTC) \<longrightarrow>
                 tdp_at TDP ADMSTC i \<le> tdp_at TDP ADMSTC j"
    and inbT: "\<forall>a\<in>set ADMSTC. inb TDP a"
  shows "\<exists>left. findLeft gamma ADMSTC TDP = Inr left \<and> 0 \<le> left \<and>
        left \<le> int (length ADMSTC) \<and>
        (\<forall>i. left \<le> i \<and> i < int (length ADMSTC) \<longrightarrow> gamma \<le> tdp_at TDP ADMSTC i)"
  unfolding findLeft_def
  by (rule findLeft_loop_ok [OF srt inbT]) simp_all

text \<open>
  \<open>valid_forest m SIZE CHILD ROOT F\<close>: the arrays of length \<open>m\<close> describe the forest \<open>F\<close> of
  trees with pairwise distinct nodes, and \<open>ROOT\<close> lists the representatives of its trees.
\<close>

definition pairwise_disjoint :: "int list list \<Rightarrow> bool" where
  "pairwise_disjoint ANS \<longleftrightarrow>
     (\<forall>i j. i < j \<and> j < length ANS \<longrightarrow> set (ANS ! i) \<inter> set (ANS ! j) = {})"

definition valid_forest :: "int \<Rightarrow> int list \<Rightarrow> int list list \<Rightarrow> int list \<Rightarrow> ctree list \<Rightarrow> bool" where
  "valid_forest m SIZE CHILD ROOT F \<longleftrightarrow>
     0 \<le> m \<and> length SIZE = nat m \<and> length CHILD = nat m \<and> ROOT = map rep F \<and>
     (\<forall>t\<in>set F. wf_tree SIZE CHILD t) \<and> distinct (concat (map postorder F))"

lemma pairwise_disjoint_snoc:
  assumes "pairwise_disjoint ANS" and "\<forall>c\<in>set ANS. set c \<inter> set d = {}"
  shows "pairwise_disjoint (ANS @ [d])"
  unfolding pairwise_disjoint_def
proof (intro allI impI)
  fix i j assume ij: "i < j \<and> j < length (ANS @ [d])"
  show "set ((ANS @ [d]) ! i) \<inter> set ((ANS @ [d]) ! j) = {}"
  proof (cases "j < length ANS")
    case True
    with ij assms(1) show ?thesis by (simp add: pairwise_disjoint_def nth_append)
  next
    case False
    with ij have j: "j = length ANS" and i: "i < length ANS" by simp_all
    then have "ANS ! i \<in> set ANS" by simp
    with assms(2) have "set (ANS ! i) \<inter> set d = {}" by blast
    with i j show ?thesis by (simp add: nth_append)
  qed
qed

lemma wf_labels_inb: "wf_tree SIZE CHILD t \<Longrightarrow> x \<in> set (postorder t) \<Longrightarrow> inb SIZE x"
proof (induction t)
  case (CNode v ts)
  from CNode.prems(2) have "x = v \<or> (\<exists>k\<in>set ts. x \<in> set (postorder k))" by auto
  then show ?case
  proof
    assume "x = v"
    with CNode.prems(1) show ?thesis by simp
  next
    assume "\<exists>k\<in>set ts. x \<in> set (postorder k)"
    then obtain k where k: "k \<in> set ts" "x \<in> set (postorder k)" by blast
    with CNode.prems(1) have "wf_tree SIZE CHILD k" by simp
    from CNode.IH [OF k(1) this k(2)] show ?thesis .
  qed
qed

lemma mark_all_total:
  "\<forall>c\<in>set C. inb M c \<Longrightarrow> \<exists>M'. mark_all C x M = Inr M'"
proof (induction C arbitrary: M)
  case Nil
  then show ?case by (simp add: mark_all_def)
next
  case (Cons c C)
  then have c: "wr M c x = Inr (M[nat c := x])" by (simp add: wr_def)
  from Cons.prems have "\<forall>c'\<in>set C. inb (M[nat c := x]) c'" by (simp add: inb_def)
  from Cons.IH [OF this] obtain M' where "mark_all C x (M[nat c := x]) = Inr M'" by blast
  with c show ?case by (simp add: mark_all_def)
qed

lemma clear_total:
  "\<forall>c\<in>set ANS. \<forall>x\<in>set c. inb M x \<Longrightarrow>
   \<exists>M'. for_loop ANS (\<lambda>c MARK'. mark_all c 0 MARK') M = Inr M'"
proof (induction ANS arbitrary: M)
  case Nil
  then show ?case by simp
next
  case (Cons c ANS)
  then have "\<forall>x\<in>set c. inb M x" by simp
  from mark_all_total [OF this] obtain M1 where M1: "mark_all c 0 M = Inr M1" by blast
  from mark_all_nth [OF M1] have "length M1 = length M" by simp
  with Cons.prems have "\<forall>c\<in>set ANS. \<forall>x\<in>set c. inb M1 x" by (simp add: inb_def)
  from Cons.IH [OF this] M1 show ?case by simp
qed

lemma upto_split_gen:
  assumes "[a..b] = pre @ x # suf"
  shows "x = a + int (length pre)" and "x \<le> b" and "\<forall>y\<in>set pre. a \<le> y \<and> y < x"
proof -
  have len: "length [a..b] = length pre + 1 + length suf" unfolding assms by simp
  then have lt: "a + int (length pre) \<le> b" by (simp split: if_splits)
  have "[a..b] ! length pre = a + int (length pre)" using lt by (intro nth_upto) simp
  moreover have "(pre @ x # suf) ! length pre = x" by simp
  ultimately show x: "x = a + int (length pre)" using assms by simp
  with lt show "x \<le> b" by simp
  show "\<forall>y\<in>set pre. a \<le> y \<and> y < x"
  proof
    fix y assume "y \<in> set pre"
    then obtain k where k: "k < length pre" "y = pre ! k" by (auto simp: in_set_conv_nth)
    then have "[a..b] ! k = y" unfolding assms by (simp add: nth_append)
    moreover have "[a..b] ! k = a + int k" using lt k(1) by (intro nth_upto) simp
    ultimately show "a \<le> y \<and> y < x" using k(1) x by simp
  qed
qed

text \<open>
  The invariant of the main loop of answerQuery: the marked voxels are those of the
  clusters found so far, each cluster is the subtree of an admissible entry of \<open>ADMSTC\<close>
  already visited, and the clusters are pairwise disjoint.
\<close>

definition cluster_inv :: "ctree list \<Rightarrow> real list \<Rightarrow> int list \<Rightarrow> int list \<Rightarrow> int list \<Rightarrow>
    int list list \<times> int list \<Rightarrow> bool" where
  "cluster_inv F TDP ADMSTC MARK pre st \<longleftrightarrow>
     (case st of (ANS, M) \<Rightarrow>
        length M = length MARK \<and>
        (\<forall>k<length M. M ! k \<noteq> 0 \<longleftrightarrow> int k \<in> \<Union>(set ` set ANS)) \<and>
        (\<forall>c\<in>set ANS. \<exists>p s i. (p, s) \<in> forest_occs F \<and> c = postorder s \<and> i \<in> set pre \<and>
            ADMSTC ! nat i = rep s \<and> (\<forall>a\<in>set p. TDP ! nat a < TDP ! nat (rep s))) \<and>
        pairwise_disjoint ANS)"

lemma answerQuery_step_ok:
  assumes wfF: "\<forall>t\<in>set F. wf_tree SIZE CHILD t"
    and dist: "distinct (concat (map postorder F))"
    and lenM: "length MARK = length SIZE"
    and adm: "\<forall>w\<in>set ADMSTC. admissible (forest_occs F) TDP w"
    and srt: "\<forall>i j. 0 \<le> i \<and> i \<le> j \<and> j < int (length ADMSTC) \<longrightarrow>
                 tdp_at TDP ADMSTC i \<le> tdp_at TDP ADMSTC j"
    and i: "0 \<le> i" "i < int (length ADMSTC)" and pre: "\<forall>y\<in>set pre. 0 \<le> y \<and> y < i"
    and inv: "cluster_inv F TDP ADMSTC MARK pre st"
  shows "\<exists>st'. answerQuery_step ADMSTC SIZE CHILD i st = Inr st' \<and>
           cluster_inv F TDP ADMSTC MARK (pre @ [i]) st'"
proof -
  obtain ANS M where st: "st = (ANS, M)" by (cases st)
  from inv st have lenM': "length M = length MARK"
    and marks: "\<forall>k<length M. M ! k \<noteq> 0 \<longleftrightarrow> int k \<in> \<Union>(set ` set ANS)"
    and cl: "\<forall>c\<in>set ANS. \<exists>p s i. (p, s) \<in> forest_occs F \<and> c = postorder s \<and> i \<in> set pre \<and>
            ADMSTC ! nat i = rep s \<and> (\<forall>a\<in>set p. TDP ! nat a < TDP ! nat (rep s))"
    and pd: "pairwise_disjoint ANS"
    unfolding cluster_inv_def by auto
  define a where "a = ADMSTC ! nat i"
  have rdA: "rd ADMSTC i = Inr a" using i by (simp add: rd_def inb_def a_def)
  have "a \<in> set ADMSTC" using i by (simp add: a_def)
  with adm obtain p s where ps: "(p, s) \<in> forest_occs F" "rep s = a"
    "\<forall>b\<in>set p. TDP ! nat b < TDP ! nat a" unfolding admissible_def by blast
  from forest_occs_wf [OF wfF ps(1)] have wfs: "wf_tree SIZE CHILD s" .
  have lab: "inb M x" if "x \<in> set (postorder s)" for x
    using wf_labels_inb [OF wfs that] lenM lenM' by (simp add: inb_def)
  from lab [of a] ps(2) rep_in_postorder [of s] have inba: "inb M a" by simp
  then have rdM: "rd M a = Inr (M ! nat a)" by (simp add: rd_def)
  have old: "\<forall>c\<in>set ANS. \<exists>p s j. (p, s) \<in> forest_occs F \<and> c = postorder s \<and> j \<in> set (pre @ [i]) \<and>
            ADMSTC ! nat j = rep s \<and> (\<forall>a\<in>set p. TDP ! nat a < TDP ! nat (rep s))"
  proof
    fix c assume "c \<in> set ANS"
    with cl obtain p' s' i' where "(p', s') \<in> forest_occs F" "c = postorder s'" "i' \<in> set pre"
      "ADMSTC ! nat i' = rep s'" "\<forall>a\<in>set p'. TDP ! nat a < TDP ! nat (rep s')" by blast
    then show "\<exists>p s j. (p, s) \<in> forest_occs F \<and> c = postorder s \<and> j \<in> set (pre @ [i]) \<and>
            ADMSTC ! nat j = rep s \<and> (\<forall>a\<in>set p. TDP ! nat a < TDP ! nat (rep s))"
      by (intro exI [of _ p'] exI [of _ s'] exI [of _ i']) simp
  qed
  show ?thesis
  proof (cases "M ! nat a = 0")
    case False
    then have "answerQuery_step ADMSTC SIZE CHILD i st = Inr (ANS, M)"
      using rdA rdM by (simp add: answerQuery_step_def st)
    moreover have "cluster_inv F TDP ADMSTC MARK (pre @ [i]) (ANS, M)"
      unfolding cluster_inv_def using lenM' marks old pd by simp
    ultimately show ?thesis by blast
  next
    case True
    from descendants_ok [OF wfs] ps(2) have desc: "descendants a SIZE CHILD = Inr (postorder s)"
      by simp
    have "\<forall>c\<in>set (postorder s). inb M c" using lab by blast
    from mark_all_total [OF this] obtain M' where M': "mark_all (postorder s) 1 M = Inr M'" by blast
    from mark_all_nth [OF M'] have lenM2: "length M' = length M"
      and nth: "\<forall>k<length M. M' ! k = (if int k \<in> set (postorder s) then 1 else M ! k)" by auto
    have res: "answerQuery_step ADMSTC SIZE CHILD i st = Inr (ANS @ [postorder s], M')"
      using rdA rdM True desc M' by (simp add: answerQuery_step_def st)
    have a0: "0 \<le> a" "nat a < length M" using inba by (auto simp: inb_def)
    have unmarked: "a \<notin> \<Union>(set ` set ANS)"
    proof
      assume "a \<in> \<Union>(set ` set ANS)"
      with a0 have "int (nat a) \<in> \<Union>(set ` set ANS)" by simp
      with marks a0(2) have "M ! nat a \<noteq> 0" by blast
      with True show False by simp
    qed
    have dis: "\<forall>c\<in>set ANS. set c \<inter> set (postorder s) = {}"
    proof
      fix c assume c: "c \<in> set ANS"
      with cl obtain p' s' i' where o: "(p', s') \<in> forest_occs F" "c = postorder s'" "i' \<in> set pre"
        "ADMSTC ! nat i' = rep s'" "\<forall>b\<in>set p'. TDP ! nat b < TDP ! nat (rep s')" by blast
      from forest_occs_nested [OF dist o(1) ps(1)]
      have "set (postorder s') \<inter> set (postorder s) = {} \<or> rep s \<in> set (postorder s') \<or>
            rep s \<in> set p'" .
      moreover have "rep s \<notin> set (postorder s')"
        using unmarked c o(2) ps(2) by auto
      moreover have "rep s \<notin> set p'"
      proof
        assume "rep s \<in> set p'"
        with o(5) ps(2) have lt: "TDP ! nat a < TDP ! nat (rep s')" by blast
        from pre o(3) have "0 \<le> i' \<and> i' \<le> i \<and> i < int (length ADMSTC)" using i by auto
        with srt have "tdp_at TDP ADMSTC i' \<le> tdp_at TDP ADMSTC i" by blast
        with lt o(4) show False by (simp add: tdp_at_def a_def)
      qed
      ultimately show "set c \<inter> set (postorder s) = {}" using o(2) by blast
    qed
    have m2: "\<forall>k<length M'. M' ! k \<noteq> 0 \<longleftrightarrow> int k \<in> \<Union>(set ` set (ANS @ [postorder s]))"
    proof (intro allI impI)
      fix k assume "k < length M'"
      then have k: "k < length M" using lenM2 by simp
      with nth have "M' ! k = (if int k \<in> set (postorder s) then 1 else M ! k)" by blast
      moreover from marks k have "M ! k \<noteq> 0 \<longleftrightarrow> int k \<in> \<Union>(set ` set ANS)" by blast
      ultimately show "M' ! k \<noteq> 0 \<longleftrightarrow> int k \<in> \<Union>(set ` set (ANS @ [postorder s]))" by auto
    qed
    have new: "\<exists>p' s' j. (p', s') \<in> forest_occs F \<and> postorder s = postorder s' \<and> j \<in> set (pre @ [i]) \<and>
            ADMSTC ! nat j = rep s' \<and> (\<forall>a\<in>set p'. TDP ! nat a < TDP ! nat (rep s'))"
      using ps by (intro exI [of _ p] exI [of _ s] exI [of _ i]) (simp add: a_def)
    have "cluster_inv F TDP ADMSTC MARK (pre @ [i]) (ANS @ [postorder s], M')"
      unfolding cluster_inv_def
      using lenM2 lenM' m2 old new pairwise_disjoint_snoc [OF pd dis] by simp
    with res show ?thesis by blast
  qed
qed

lemma sorted_tdp_at:
  assumes "sorted (map (\<lambda>v. TDP ! nat v) ADMSTC)"
  shows "\<forall>i j. 0 \<le> i \<and> i \<le> j \<and> j < int (length ADMSTC) \<longrightarrow>
                 tdp_at TDP ADMSTC i \<le> tdp_at TDP ADMSTC j"
proof (intro allI impI)
  fix i j :: int assume ij: "0 \<le> i \<and> i \<le> j \<and> j < int (length ADMSTC)"
  then have n: "nat i \<le> nat j" "nat j < length (map (\<lambda>v. TDP ! nat v) ADMSTC)" by auto
  from assms n have "map (\<lambda>v. TDP ! nat v) ADMSTC ! nat i \<le> map (\<lambda>v. TDP ! nat v) ADMSTC ! nat j"
    by (simp only: sorted_iff_nth_mono)
  with n show "tdp_at TDP ADMSTC i \<le> tdp_at TDP ADMSTC j" by (simp add: tdp_at_def)
qed

lemma answerQuery_ok:
  assumes wfF: "\<forall>t\<in>set F. wf_tree SIZE CHILD t"
    and dist: "distinct (concat (map postorder F))"
    and lenM: "length MARK = length SIZE" and lenT: "length TDP = length SIZE"
    and zero: "\<forall>x\<in>set MARK. x = 0"
    and adm: "\<forall>w\<in>set ADMSTC. admissible (forest_occs F) TDP w"
    and srt: "sorted (map (\<lambda>v. TDP ! nat v) ADMSTC)"
  shows "\<exists>ANS. answerQuery gamma ADMSTC SIZE MARK TDP CHILD = Inr (ANS, MARK) \<and>
           pairwise_disjoint ANS \<and>
           (\<forall>c\<in>set ANS. c \<noteq> [] \<and> max gamma 0 \<le> TDP ! nat (last c))"
proof -
  let ?n = "int (length ADMSTC)"
  define g where "g = (if gamma < 0 then 0 else gamma)"
  have g: "g = max gamma 0" by (simp add: g_def max_def)
  note srt' = sorted_tdp_at [OF srt]
  have inbT: "\<forall>a\<in>set ADMSTC. inb TDP a"
  proof
    fix a assume "a \<in> set ADMSTC"
    with adm obtain p s where ps: "(p, s) \<in> forest_occs F" "rep s = a"
      unfolding admissible_def by blast
    from wf_labels_inb [OF forest_occs_wf [OF wfF ps(1)] rep_in_postorder] ps(2) lenT
    show "inb TDP a" by (simp add: inb_def)
  qed
  from findLeft_ok [OF srt' inbT, of g] obtain left where
    left: "findLeft g ADMSTC TDP = Inr left" "0 \<le> left" "left \<le> ?n"
    "\<forall>i. left \<le> i \<and> i < ?n \<longrightarrow> g \<le> tdp_at TDP ADMSTC i" by blast
  have "\<exists>st. for_loop [left..?n - 1] (answerQuery_step ADMSTC SIZE CHILD) ([], MARK) = Inr st \<and>
          cluster_inv F TDP ADMSTC MARK [left..?n - 1] st"
  proof (rule for_loop_rule)
    show "cluster_inv F TDP ADMSTC MARK [] ([], MARK)"
      using zero by (simp add: cluster_inv_def pairwise_disjoint_def)
  next
    fix pre i st
    assume inv: "cluster_inv F TDP ADMSTC MARK pre st"
      and sp: "\<exists>suf. [left..?n - 1] = pre @ i # suf"
    from sp obtain suf where "[left..?n - 1] = pre @ i # suf" by blast
    from upto_split_gen [OF this] have i: "i = left + int (length pre)" "i \<le> ?n - 1"
      "\<forall>y\<in>set pre. left \<le> y \<and> y < i" by auto
    have i0: "0 \<le> i" "i < ?n" using i(1,2) left(2) by simp_all
    have pre: "\<forall>y\<in>set pre. 0 \<le> y \<and> y < i" using i(3) left(2) by auto
    from answerQuery_step_ok [OF wfF dist lenM adm srt' i0 pre inv]
    show "\<exists>s'. answerQuery_step ADMSTC SIZE CHILD i st = Inr s' \<and>
            cluster_inv F TDP ADMSTC MARK (pre @ [i]) s'" .
  qed
  then obtain ANS M1 where
    loop: "for_loop [left..?n - 1] (answerQuery_step ADMSTC SIZE CHILD) ([], MARK) = Inr (ANS, M1)"
    and inv: "cluster_inv F TDP ADMSTC MARK [left..?n - 1] (ANS, M1)" by auto
  from inv have lenM1: "length M1 = length MARK"
    and cl: "\<forall>c\<in>set ANS. \<exists>p s i. (p, s) \<in> forest_occs F \<and> c = postorder s \<and>
            i \<in> set [left..?n - 1] \<and>
            ADMSTC ! nat i = rep s \<and> (\<forall>a\<in>set p. TDP ! nat a < TDP ! nat (rep s))"
    and pd: "pairwise_disjoint ANS"
    unfolding cluster_inv_def by auto
  have "\<forall>c\<in>set ANS. \<forall>x\<in>set c. inb M1 x"
  proof (intro ballI)
    fix c x assume c: "c \<in> set ANS" and x: "x \<in> set c"
    from cl [rule_format, OF c] obtain p s where ps: "(p, s) \<in> forest_occs F" "c = postorder s"
      by auto
    from x ps(2) have "x \<in> set (postorder s)" by simp
    from wf_labels_inb [OF forest_occs_wf [OF wfF ps(1)] this] lenM lenM1
    show "inb M1 x" by (simp add: inb_def)
  qed
  from clear_total [OF this] obtain M2 where
    M2: "for_loop ANS (\<lambda>c MARK'. mark_all c 0 MARK') M1 = Inr M2" by blast
  have res: "answerQuery gamma ADMSTC SIZE MARK TDP CHILD = Inr (ANS, M2)"
    using left(1) loop M2 by (simp add: answerQuery_def g_def)
  from answerQuery_marks [OF zero res] have "M2 = MARK" .
  moreover have "\<forall>c\<in>set ANS. c \<noteq> [] \<and> max gamma 0 \<le> TDP ! nat (last c)"
  proof
    fix c assume "c \<in> set ANS"
    from cl [rule_format, OF this] obtain p s i where c: "c = postorder s"
      "i \<in> set [left..?n - 1]" "ADMSTC ! nat i = rep s" by auto
    from c(2) have "left \<le> i \<and> i < ?n" by simp
    with left(4) have "g \<le> tdp_at TDP ADMSTC i" by blast
    with c(1,3) g show "c \<noteq> [] \<and> max gamma 0 \<le> TDP ! nat (last c)"
      by (simp add: postorder_nonempty last_postorder tdp_at_def)
  qed
  ultimately show ?thesis using res pd by blast
qed

text \<open>
  Claim C2. Let \<open>SIZE\<close>, \<open>CHILD\<close> and \<open>ROOT\<close> describe a forest on the voxels \<open>[0, m)\<close>, with
  any \<open>TDP\<close> array of length \<open>m\<close> and the all-zero \<open>MARK\<close> buffer. Then queryPreparation
  returns a list \<open>W\<close> in ascending order of TDP, and on \<open>W\<close>, as on every other arrangement
  \<open>ADMSTC\<close> of the nodes of \<open>W\<close> in ascending order of TDP (\<open>std::sort\<close> leaves the order of
  ties open), for every threshold \<open>gamma\<close>, answerQuery returns clusters that are pairwise
  disjoint, each of them non-empty with a last element whose TDP is at least
  \<open>max(gamma, 0)\<close>, and leaves \<open>MARK\<close> all-zero.
\<close>

theorem answerQuery_disjoint:
  assumes "valid_forest m SIZE CHILD ROOT F" and "length TDP = nat m" and "length MARK = nat m"
    and "\<forall>x\<in>set MARK. x = 0"
  shows "\<exists>W. queryPreparation m ROOT TDP CHILD = Inr W \<and>
           sorted (map (\<lambda>v. TDP ! nat v) W) \<and>
           (\<forall>ADMSTC. set ADMSTC = set W \<and> sorted (map (\<lambda>v. TDP ! nat v) ADMSTC) \<longrightarrow>
              (\<exists>ANS. answerQuery gamma ADMSTC SIZE MARK TDP CHILD = Inr (ANS, MARK) \<and>
                 pairwise_disjoint ANS \<and>
                 (\<forall>c\<in>set ANS. c \<noteq> [] \<and> max gamma 0 \<le> TDP ! nat (last c))))"
proof -
  from assms(1) have wfF: "\<forall>t\<in>set F. wf_tree SIZE CHILD t"
    and dist: "distinct (concat (map postorder F))" and root: "ROOT = map rep F"
    and lenS: "length SIZE = nat m"
    unfolding valid_forest_def by blast+
  have lenT: "length TDP = length SIZE" and lenM: "length MARK = length SIZE"
    using assms(2,3) lenS by simp_all
  have "\<exists>W. for_loop (map rep F)
            (\<lambda>r ADMSTC. run (queryPreparation_loop TDP CHILD [(r, - 1)] ADMSTC)) [] = Inr W \<and>
        (\<forall>w\<in>set W. admissible (forest_occs F) TDP w)"
  proof (rule queryPreparation_walk_ok [where Occ = "forest_occs F" and SIZE = SIZE])
    fix p v ts c assume "(p, CNode v ts) \<in> forest_occs F" "c \<in> set ts"
    then show "(v # p, c) \<in> forest_occs F" by (rule forest_occs_child)
  next
    fix p t assume "(p, t) \<in> forest_occs F"
    with wfF show "wf_tree SIZE CHILD t" by (rule forest_occs_wf)
  next
    show "length TDP = length SIZE" by fact
  next
    show "\<forall>f\<in>set F. ([], f) \<in> forest_occs F" using forest_occs_root by blast
  next
    show "\<forall>w\<in>set []. admissible (forest_occs F) TDP w" by simp
  qed
  then obtain W where W: "queryPreparation_walk ROOT TDP CHILD = Inr W"
    "\<forall>w\<in>set W. admissible (forest_occs F) TDP w"
    unfolding queryPreparation_walk_def root by blast
  define W0 where "W0 = sort_key (\<lambda>v. TDP ! nat v) W"
  have q: "queryPreparation m ROOT TDP CHILD = Inr W0"
    using W(1) by (simp add: queryPreparation_def W0_def)
  have main: "\<exists>ANS. answerQuery gamma ADMSTC SIZE MARK TDP CHILD = Inr (ANS, MARK) \<and>
                 pairwise_disjoint ANS \<and>
                 (\<forall>c\<in>set ANS. c \<noteq> [] \<and> max gamma 0 \<le> TDP ! nat (last c))"
    if h: "set ADMSTC = set W0 \<and> sorted (map (\<lambda>v. TDP ! nat v) ADMSTC)" for ADMSTC
  proof -
    from h have "set ADMSTC = set W0" by simp
    then have "set ADMSTC = set W" by (simp add: W0_def)
    with W(2) have adm: "\<forall>w\<in>set ADMSTC. admissible (forest_occs F) TDP w" by simp
    from h have srt: "sorted (map (\<lambda>v. TDP ! nat v) ADMSTC)" by simp
    from answerQuery_ok [OF wfF dist lenM lenT assms(4) adm srt] show ?thesis .
  qed
  moreover have "sorted (map (\<lambda>v. TDP ! nat v) W0)"
    unfolding W0_def by (rule sorted_sort_key)
  ultimately show ?thesis using q by blast
qed

theorem answerQuery_disjoint_witness:
  "queryPreparation 3 [1, 2] [1, 1/2, 1] [[], [0], []] = Inr [1, 0, 2] \<and>
   answerQuery (3/4) [1, 0, 2] [1, 2, 1] [0, 0, 0] [1, 1/2, 1] [[], [0], []]
     = Inr ([[0], [2]], [0, 0, 0]) \<and>
   pairwise_disjoint [[0], [2]] \<and> max (3/4) 0 \<le> [1, 1/2, 1 :: real] ! nat (last [2])"
proof -
  have v: "valid_forest 3 [1, 2, 1] [[], [0], []] [1, 2] [CNode 1 [CNode 0 []], CNode 2 []]"
    by (simp add: valid_forest_def inb_def)
  have h: "length [1, 1/2, 1 :: real] = nat 3" "length [0, 0, 0 :: int] = nat 3"
    "\<forall>x\<in>set [0, 0, 0 :: int]. x = 0" by simp_all
  have q: "queryPreparation 3 [1, 2] [1, 1/2, 1] [[], [0], []] = Inr [1, 0, 2]" by code_simp
  have a: "answerQuery (3/4) [1, 0, 2] [1, 2, 1] [0, 0, 0] [1, 1/2, 1] [[], [0], []]
     = Inr ([[0], [2]], [0, 0, 0])" by code_simp
  have s: "set [1, 0, 2 :: int] = set [1, 0, 2] \<and>
     sorted (map (\<lambda>v. [1, 1/2, 1 :: real] ! nat v) [1, 0, 2])" by simp
  from answerQuery_disjoint [OF v h, where gamma = "3/4"] q
  have "\<forall>ADMSTC. set ADMSTC = set [1, 0, 2] \<and>
          sorted (map (\<lambda>v. [1, 1/2, 1 :: real] ! nat v) ADMSTC) \<longrightarrow>
          (\<exists>ANS. answerQuery (3/4) ADMSTC [1, 2, 1] [0, 0, 0] [1, 1/2, 1] [[], [0], []]
                   = Inr (ANS, [0, 0, 0]) \<and>
             pairwise_disjoint ANS \<and>
             (\<forall>c\<in>set ANS. c \<noteq> [] \<and> max (3/4) 0 \<le> [1, 1/2, 1 :: real] ! nat (last c)))"
    by simp
  from this [rule_format, OF s] a
  have "pairwise_disjoint [[0], [2]] \<and>
     (\<forall>c\<in>set [[0], [2 :: int]]. c \<noteq> [] \<and> max (3/4) 0 \<le> [1, 1/2, 1 :: real] ! nat (last c))"
    by simp
  with q a show ?thesis by simp
qed

section \<open>The TDP propagator on concrete forests\<close>

text \<open>
  Claim C1 at a heavy path that starts at the non-first child 0 of the root 2 in the forest
  \<open>CHILD = [[], [], [1, 0]]\<close>, \<open>SIZE = [1, 1, 3]\<close>, with \<open>P = [1/1024, 1/4, 1/2]\<close>,
  \<open>alpha = 1/32\<close>, \<open>h = 1\<close>, \<open>simesh = 1\<close>. The claim assigns
  \<open>tdp[0] = disc[0] / 1\<close> for \<open>disc = findDiscoveries([0])\<close>. heavyPathTDP passes the ids
  shifted by one, \<open>[1]\<close>, to the zero-based findDiscoveries, obtains a result of length 1
  and reads it at index \<open>SIZE[0] = 1\<close>, outside the vector.
\<close>

theorem heavyPathTDP_reads_past_discoveries:
  "findDiscoveries [1] [1/1024, 1/4, 1/2] 1 1 (1/32) 1 3 = Inr [0] \<and>
   heavyPathTDP 0 2 3 1 (1/32) 1 [1/1024, 1/4, 1/2] [1, 1, 3] [[], [], [1, 0]] [0, 0, 0]
     = Inl OutOfBounds"
  by code_simp

text \<open>
  Claim C4 at the single-voxel forest \<open>m = 1\<close>, \<open>P = [1/1024]\<close>, \<open>SIZE = [1]\<close>,
  \<open>ROOT = [0]\<close>, \<open>CHILD = [[]]\<close>: the descendant list of the root is \<open>[0]\<close>,
  heavyPathTDP passes \<open>[1]\<close> to findDiscoveries, and the read \<open>allp[idx[0]] = P[1]\<close> is
  outside \<open>P\<close>.
\<close>

theorem forestTDP_out_of_bounds:
  "descendants 0 [1] [[]] = Inr [0] \<and>
   findDiscoveries [1] [1/1024] 1 1 (1/32) 1 1 = Inl OutOfBounds \<and>
   forestTDP 1 1 (1/32) 1 [1/1024] [1] [0] [[]] = Inl OutOfBounds"
  by code_simp

section \<open>changeQuery on a concrete answer set\<close>

text \<open>
  Claim C7 at the forest \<open>CHILD = [[], [0], []]\<close>, \<open>SIZE = [1, 2, 1]\<close> with roots 1 and 2,
  \<open>TDP = [1, 1/2, 1]\<close>, \<open>ADMSTC = [1, 0, 2]\<close> (the result of queryPreparation), and
  \<open>ANS = [[0], [2]]\<close> (the result of answerQuery at 3/4). Growing the cluster of voxel 0 by
  \<open>tdpchg = - 1/4\<close> is within the achievable range (the minimum TDP is 1/2), so none of
  the error cases applies. The grow branch then tests the singleton cluster \<open>[2]\<close> with
  \<open>while (r - l >= CL.size() - 1)\<close>, whose right-hand side is the unsigned 0: the loop does
  not stop when the pointers cross and reads \<open>DESC\<close> outside its bounds.
\<close>

theorem changeQuery_grow_out_of_bounds:
  "queryPreparation 3 [1, 2] [1, 1/2, 1] [[], [0], []] = Inr [1, 0, 2] \<and>
   answerQuery (3/4) [1, 0, 2] [1, 2, 1] [0, 0, 0] [1, 1/2, 1] [[], [0], []]
     = Inr ([[0], [2]], [0, 0, 0]) \<and>
   changeQuery_contains [1, 0, 2] [0, 1] 1 0 1 = Inl OutOfBounds \<and>
   changeQuery 0 (- 1/4) [1, 0, 2] [1, 2, 1] [0, 0, 0] [1, 1/2, 1] [[], [0], []] [[0], [2]]
     = Inl OutOfBounds"
  by code_simp

section \<open>UnionBySize on a concrete state\<close>

text \<open>
  Claim C10 as stated fails at \<open>PARENT = [0, 1]\<close>, \<open>FORESTROOT = [0, 1]\<close>,
  \<open>SIZE = [1, 2]\<close>, \<open>UnionBySize(0, 1)\<close>: the side of \<open>j = 1\<close> is the larger one and its
  forestroot is 1, but the merged component (representative 1) gets forestroot 0, the
  forestroot of the side of \<open>i\<close>.
\<close>

theorem UnionBySize_forestroot_of_i:
  "UnionBySize 0 1 ([0, 1], [0, 1], [1, 2]) = Inr ([1, 1], [0, 0], [3, 2])"
  by code_simp

end
